theory Spec2Isabelle
  imports Main "HOL-Library.Char_ord" "HOL-Library.List_Lexorder"
begin

section \<open>JSON values and JavaScript property lists\<close>

text \<open>
  The hook module \<^verbatim>\<open>use-query-swr.ts\<close> keeps the last result of every Convex query in
  one JavaScript object (the value of \<^verbatim>\<open>cacheAtom\<close>), keyed by a string that
  \<^verbatim>\<open>createQueryKey\<close> derives from the function reference and its arguments.

  Query arguments are Convex values. The model covers \<^verbatim>\<open>null\<close>, booleans, numbers that
  are safe integers (which JavaScript prints in plain decimal), strings of one-byte
  characters, arrays and plain objects. An object is the list of its own properties in JavaScript's
  enumeration order.
\<close>

datatype json =
    JNull
  | JBool bool
  | JNum int
  | JStr string
  | JArr "json list"
  | JObj "(string \<times> json) list"

subsection \<open>Decimal numerals\<close>

definition digit_char :: "nat \<Rightarrow> char" where
  "digit_char d = ''0123456789'' ! d"

text \<open>\<^verbatim>\<open>Number.prototype.toString\<close> on a non-negative integer.\<close>

fun show_nat :: "nat \<Rightarrow> string" where
  "show_nat n = (if n < 10 then [digit_char n] else show_nat (n div 10) @ [digit_char (n mod 10)])"

declare show_nat.simps [simp del]

definition show_int :: "int \<Rightarrow> string" where
  "show_int i = (if i < 0 then CHR ''-'' # show_nat (nat (- i)) else show_nat (nat i))"

definition is_digit :: "char \<Rightarrow> bool" where
  "is_digit c = (c \<in> set ''0123456789'')"

definition dec_value :: "string \<Rightarrow> nat" where
  "dec_value s = foldl (\<lambda>a c. 10 * a + (of_char c - 48)) 0 s"

subsection \<open>Own properties in enumeration order\<close>

text \<open>
  An array index is a property name that is the canonical decimal numeral of an integer
  below \<open>2^32 - 1\<close>. JavaScript enumerates the array-index properties of an object first,
  in ascending numeric order, and then the other string-keyed properties in the order of
  their creation; \<^verbatim>\<open>Object.entries\<close>, the spread \<^verbatim>\<open>{...o}\<close> and \<^verbatim>\<open>JSON.stringify\<close> all
  follow that order.
\<close>

definition isArrayIndex :: "string \<Rightarrow> bool" where
  "isArrayIndex s = (show_nat (dec_value s) = s \<and> dec_value s < 4294967295)"

text \<open>Creating the property \<open>k\<close>, which the object does not have yet.\<close>

fun js_insert :: "string \<Rightarrow> 'a \<Rightarrow> (string \<times> 'a) list \<Rightarrow> (string \<times> 'a) list" where
  "js_insert k v [] = [(k, v)]"
| "js_insert k v ((k', v') # ps) =
     (if isArrayIndex k \<and> (isArrayIndex k' \<longrightarrow> dec_value k < dec_value k')
      then (k, v) # (k', v') # ps
      else (k', v') # js_insert k v ps)"

text \<open>
  Giving the object the own property \<open>k\<close> with the value \<open>v\<close>, as a computed key of an
  object literal does: an existing property keeps its place.
\<close>

definition js_set :: "(string \<times> 'a) list \<Rightarrow> string \<Rightarrow> 'a \<Rightarrow> (string \<times> 'a) list" where
  "js_set ps k v =
     (if map_of ps k = None then js_insert k v ps
      else map (\<lambda>(k', v'). if k' = k then (k', v) else (k', v')) ps)"

text \<open>
  The assignment \<^verbatim>\<open>o[k] = v\<close> on an object made by \<^verbatim>\<open>{}\<close>. It looks the name up on the
  object and then on \<^verbatim>\<open>Object.prototype\<close>. For every name but \<^verbatim>\<open>__proto__\<close> the object gets
  or keeps the own property. \<^verbatim>\<open>__proto__\<close> is an accessor of \<^verbatim>\<open>Object.prototype\<close>: unless the
  object has an own property of that name, the assignment calls the setter, and the
  object gets no property (the setter changes the prototype when \<open>v\<close> is an object or
  \<^verbatim>\<open>null\<close>, and does nothing for a string).
\<close>

definition js_assign :: "(string \<times> 'a) list \<Rightarrow> string \<Rightarrow> 'a \<Rightarrow> (string \<times> 'a) list" where
  "js_assign ps k v = (if k = ''__proto__'' \<and> map_of ps k = None then ps else js_set ps k v)"

text \<open>\<^verbatim>\<open>delete o[k]\<close>.\<close>

definition js_delete :: "(string \<times> 'a) list \<Rightarrow> string \<Rightarrow> (string \<times> 'a) list" where
  "js_delete ps k = filter (\<lambda>p. fst p \<noteq> k) ps"

subsection \<open>\<^verbatim>\<open>JSON.stringify\<close>\<close>

definition hex_digit :: "nat \<Rightarrow> char" where
  "hex_digit d = ''0123456789abcdef'' ! d"

text \<open>
  The escapes of ECMAScript's \<^verbatim>\<open>QuoteJSONString\<close>: the double quote (\<open>0x22\<close>), the
  backslash (\<open>0x5C\<close>), the five named control characters, and \<^verbatim>\<open>\u00XX\<close> for every
  other character below \<open>0x20\<close>.
\<close>

definition escape_char :: "char \<Rightarrow> string" where
  "escape_char c =
     (if c = CHR 0x22 then [CHR 0x5C, CHR 0x22]
      else if c = CHR 0x5C then [CHR 0x5C, CHR 0x5C]
      else if c = CHR 0x08 then [CHR 0x5C, CHR ''b'']
      else if c = CHR 0x0C then [CHR 0x5C, CHR ''f'']
      else if c = CHR 0x0A then [CHR 0x5C, CHR ''n'']
      else if c = CHR 0x0D then [CHR 0x5C, CHR ''r'']
      else if c = CHR 0x09 then [CHR 0x5C, CHR ''t'']
      else if (of_char c :: nat) < 32
        then [CHR 0x5C, CHR ''u'', CHR ''0'', CHR ''0'',
              hex_digit (of_char c div 16), hex_digit (of_char c mod 16)]
      else [c])"

definition QuoteJSONString :: "string \<Rightarrow> string" where
  "QuoteJSONString s = CHR 0x22 # concat (map escape_char s) @ [CHR 0x22]"

fun join_commas :: "string list \<Rightarrow> string" where
  "join_commas [] = []"
| "join_commas [s] = s"
| "join_commas (s # t # ss) = s @ CHR '','' # join_commas (t # ss)"

text \<open>\<^verbatim>\<open>JSON.stringify(v)\<close> with no replacer and no indentation.\<close>

fun JSON_stringify :: "json \<Rightarrow> string" where
  "JSON_stringify JNull = ''null''"
| "JSON_stringify (JBool b) = (if b then ''true'' else ''false'')"
| "JSON_stringify (JNum n) = show_int n"
| "JSON_stringify (JStr s) = QuoteJSONString s"
| "JSON_stringify (JArr xs) = ''['' @ join_commas (map JSON_stringify xs) @ '']''"
| "JSON_stringify (JObj ps) =
     ''{'' @ join_commas (map (\<lambda>(k, v). QuoteJSONString k @ '':'' @ JSON_stringify v) ps) @ ''}''"

text \<open>
  What follows a value inside a JSON text (a comma, a closing bracket, or nothing) is
  never a digit; this is what delimits a number.
\<close>

definition no_digit_ahead :: "string \<Rightarrow> bool" where
  "no_digit_ahead r = (case r of [] \<Rightarrow> True | c # _ \<Rightarrow> \<not> is_digit c)"

section \<open>The key deriver\<close>

text \<open>
  Modelled from the spec: \<^verbatim>\<open>getFunctionName\<close> and \<^verbatim>\<open>convexToJson\<close>, which
  \<^verbatim>\<open>createQueryKey\<close> imports from the Convex client library (\<^verbatim>\<open>convex/server\<close>,
  \<^verbatim>\<open>convex/values\<close>); the library is not among the sources. The specification takes
  from them the canonical name of the query identity and the canonical JSON encoding of
  the arguments. A function reference is modelled by the canonical name it resolves to.
  \<^verbatim>\<open>convexToJson\<close> leaves \<^verbatim>\<open>null\<close>, booleans, numbers and strings as they are, maps
  itself over an array, and for an object sorts \<^verbatim>\<open>Object.entries\<close> by field name
  (code-unit order) and assigns the encoded fields, in that order, to a fresh object.
\<close>

datatype funref = FunctionReference string

fun getFunctionName :: "funref \<Rightarrow> string" where
  "getFunctionName (FunctionReference n) = n"

function convexToJson :: "json \<Rightarrow> json" where
  "convexToJson JNull = JNull"
| "convexToJson (JBool b) = JBool b"
| "convexToJson (JNum n) = JNum n"
| "convexToJson (JStr s) = JStr s"
| "convexToJson (JArr xs) = JArr (map convexToJson xs)"
| "convexToJson (JObj ps) =
     JObj (fold (\<lambda>(k, v) out. js_set out k (convexToJson v)) (sort_key fst ps) [])"
  by pat_completeness auto
termination
proof (relation "measure size")
  show "wf (measure size)"
    by simp
next
  fix xs :: "json list" and x
  assume "x \<in> set xs"
  then have "size x \<le> size_list size xs"
    by (simp add: size_list_estimation')
  then show "(x, JArr xs) \<in> measure size"
    by simp
next
  fix ps :: "(string \<times> json) list" and x xa y
  assume "x \<in> set (sort_key fst ps)" and "(xa, y) = x"
  then have "(xa, y) \<in> set ps"
    by simp
  then have "size_prod (\<lambda>_. 0) size (xa, y) \<le> size_list (size_prod (\<lambda>_. 0) size) ps"
    by (rule size_list_estimation') simp
  then show "(y, JObj ps) \<in> measure size"
    by simp
qed

text \<open>
  \<^verbatim>\<open>createQueryKey(query, args)\<close>:
  \<^verbatim>\<open>JSON.stringify([getFunctionName(query), convexToJson(args)])\<close>.
\<close>

definition createQueryKey :: "funref \<Rightarrow> json \<Rightarrow> string" where
  "createQueryKey query args =
     (let queryString = getFunctionName query;
          key = JArr [JStr queryString, convexToJson args];
          queryKey = JSON_stringify key
      in queryKey)"

section \<open>JavaScript values, the store and the hooks' context\<close>

text \<open>
  Query results and cache entries have the type \<^verbatim>\<open>unknown\<close>. \<open>VNative f\<close> is a function of
  the Convex client (such as the \<^verbatim>\<open>loadMore\<close> of \<^verbatim>\<open>usePaginatedQuery\<close>), known by its
  identity \<open>f\<close>; \<open>VLoadMore key original\<close> is the closure that \<^verbatim>\<open>usePaginatedQuerySwr\<close>
  builds with \<^verbatim>\<open>useCallback\<close>, which captures \<^verbatim>\<open>key\<close> and \<^verbatim>\<open>result.loadMore\<close>.
\<close>

datatype jsval =
    VUndefined
  | VNull
  | VBool bool
  | VNum int
  | VStr string
  | VArr "jsval list"
  | VObj "(string \<times> jsval) list"
  | VNative nat
  | VLoadMore string jsval

text \<open>The nullish coalescing operator \<^verbatim>\<open>a ?? b\<close>.\<close>

definition nullish :: "jsval \<Rightarrow> jsval \<Rightarrow> jsval" where
  "nullish a b = (if a = VUndefined \<or> a = VNull then b else a)"

text \<open>
  The property read \<^verbatim>\<open>o[k]\<close> on an object given by its own properties. The keys that
  the module reads are JSON texts, which are never names of \<^verbatim>\<open>Object.prototype\<close>.
\<close>

definition js_get :: "(string \<times> jsval) list \<Rightarrow> string \<Rightarrow> jsval" where
  "js_get ps k = (case map_of ps k of None \<Rightarrow> VUndefined | Some v \<Rightarrow> v)"

text \<open>
  \<^verbatim>\<open>result.status\<close> and \<^verbatim>\<open>result.loadMore\<close>, read from the object that
  \<^verbatim>\<open>usePaginatedQuery\<close> returns. (On a value without own properties the read gives
  \<^verbatim>\<open>undefined\<close> here; the hook reads from that object only.)
\<close>

fun js_prop :: "jsval \<Rightarrow> string \<Rightarrow> jsval" where
  "js_prop (VObj ps) k = js_get ps k"
| "js_prop _ k = VUndefined"

text \<open>The own enumerable properties that \<^verbatim>\<open>{...v}\<close> and \<^verbatim>\<open>Object.values(v)\<close> go through.\<close>

fun js_spread :: "jsval \<Rightarrow> (string \<times> jsval) list" where
  "js_spread (VObj ps) = ps"
| "js_spread (VArr xs) = zip (map show_nat [0..<length xs]) xs"
| "js_spread (VStr s) = zip (map show_nat [0..<length s]) (map (\<lambda>c. VStr [c]) s)"
| "js_spread _ = []"

definition Object_values :: "jsval \<Rightarrow> jsval list" where
  "Object_values v = map snd (js_spread v)"

text \<open>
  What the module does to the outside, in order: every \<^verbatim>\<open>store.set(cacheAtom, m)\<close>,
  every call of a function of the Convex client, and the \<^verbatim>\<open>TypeError\<close> of calling
  something that is not a function.
\<close>

datatype event =
    StoreSet "(string \<times> jsval) list"
  | Invoke nat jsval
  | TypeError

text \<open>
  The three subscribe operations of \<^verbatim>\<open>convex/react\<close>, as a snapshot: what each returns
  in the current evaluation. A multi-query request is the list of
  \<^verbatim>\<open>Object.entries(queries)\<close>, each entry a name with its \<^verbatim>\<open>{query, args}\<close>.
\<close>

record provider =
  subscribe :: "funref \<Rightarrow> json list \<Rightarrow> jsval"
  subscribeMany :: "(string \<times> funref \<times> json) list \<Rightarrow> jsval"
  subscribePaginated :: "funref \<Rightarrow> json list \<Rightarrow> jsval"

text \<open>
  The context of one evaluation (one render and its commit) of a hook instance:
  \<^item> \<open>convex\<close>: the provider's snapshot;
  \<^item> \<open>cacheAtom\<close>: the value of the module's atom in the default store, shared by all
    instances;
  \<^item> \<open>events\<close>: the effects so far;
  \<^item> \<open>lastDep\<close>: the dependency that React recorded for the instance's effect at its
    last commit (\<open>None\<close> before the first);
  \<^item> \<open>sameRef\<close>: whether this evaluation's dependency, when it is an object, is the very
    object of the last commit. Reference identity is the provider's business, so the
    environment supplies it.
\<close>

record ctx =
  convex :: provider
  cacheAtom :: "(string \<times> jsval) list"
  events :: "event list"
  lastDep :: "jsval option"
  sameRef :: bool

definition store_get :: "ctx \<Rightarrow> (string \<times> jsval) list" where
  "store_get c = cacheAtom c"

definition store_set :: "(string \<times> jsval) list \<Rightarrow> ctx \<Rightarrow> ctx" where
  "store_set m c = c\<lparr>cacheAtom := m, events := events c @ [StoreSet m]\<rparr>"

text \<open>
  \<^verbatim>\<open>Object.is\<close>, by which React compares dependencies: by value on primitives, by
  reference on objects and arrays. Client functions are compared by their identity.
\<close>

fun is_primitive :: "jsval \<Rightarrow> bool" where
  "is_primitive (VArr xs) = False"
| "is_primitive (VObj ps) = False"
| "is_primitive (VLoadMore k f) = False"
| "is_primitive _ = True"

definition Object_is :: "bool \<Rightarrow> jsval \<Rightarrow> jsval \<Rightarrow> bool" where
  "Object_is same a b = (a = b \<and> (is_primitive a \<or> same))"

text \<open>
  \<^verbatim>\<open>React.useEffect(effect, [dep])\<close>: the effect runs after the render, at the first
  commit and whenever the dependency is not \<^verbatim>\<open>Object.is\<close> the recorded one.
\<close>

definition effect_runs :: "ctx \<Rightarrow> jsval \<Rightarrow> bool" where
  "effect_runs c dep =
     (case lastDep c of None \<Rightarrow> True | Some d \<Rightarrow> \<not> Object_is (sameRef c) d dep)"

definition useEffect :: "(ctx \<Rightarrow> ctx) \<Rightarrow> jsval \<Rightarrow> ctx \<Rightarrow> ctx" where
  "useEffect effect dep c =
     (let run = effect_runs c dep;
          c' = c\<lparr>lastDep := Some dep\<rparr>
      in if run then effect c' else c')"

text \<open>Calling a function value with one argument.\<close>

fun js_call :: "jsval \<Rightarrow> jsval \<Rightarrow> ctx \<Rightarrow> ctx" where
  "js_call (VNative f) arg c = c\<lparr>events := events c @ [Invoke f arg]\<rparr>"
| "js_call (VLoadMore key originalLoadMore) numItems c =
     (let cache = js_delete (store_get c) key;
          c' = store_set cache c
      in js_call originalLoadMore numItems c')"
| "js_call _ arg c = c\<lparr>events := events c @ [TypeError]\<rparr>"

section \<open>The hooks\<close>

text \<open>
  The hooks of \<^verbatim>\<open>convex/react\<close> return the provider's snapshot and touch neither the
  atom nor the instance's effect. The module's \<^verbatim>\<open>log\<close> is the empty function
  (\<^verbatim>\<open>__DEBUG__\<close> is false), so its calls are left out.
\<close>

definition useQuery :: "funref \<Rightarrow> json list \<Rightarrow> ctx \<Rightarrow> jsval \<times> ctx" where
  "useQuery name args c = (subscribe (convex c) name args, c)"

definition useQueries :: "(string \<times> funref \<times> json) list \<Rightarrow> ctx \<Rightarrow> jsval \<times> ctx" where
  "useQueries queries c = (subscribeMany (convex c) queries, c)"

definition usePaginatedQuery :: "funref \<Rightarrow> json list \<Rightarrow> ctx \<Rightarrow> jsval \<times> ctx" where
  "usePaginatedQuery name args c = (subscribePaginated (convex c) name args, c)"

definition FEATURE_FLAG_USE_QUERY_SWR :: bool where
  "FEATURE_FLAG_USE_QUERY_SWR = True"

subsection \<open>\<^verbatim>\<open>useQueriesSwr\<close>\<close>

text \<open>
  \<^verbatim>\<open>Object.values(result ?? { a: undefined }).some((v) => v === undefined)\<close>
\<close>

definition queriesLoading :: "jsval \<Rightarrow> bool" where
  "queriesLoading result =
     list_ex (\<lambda>v. v = VUndefined) (Object_values (nullish result (VObj [(''a'', VUndefined)])))"

text \<open>
  The memoised \<^verbatim>\<open>key\<close>: for every entry of \<^verbatim>\<open>queries\<close> the derived key is assigned to
  \<^verbatim>\<open>newMap\<close>, which starts as \<^verbatim>\<open>{}\<close>, by \<^verbatim>\<open>newMap[key] = createQueryKey(query, args)\<close>;
  then \<^verbatim>\<open>newMap\<close> is serialised.
\<close>

definition queriesKey :: "(string \<times> funref \<times> json) list \<Rightarrow> string" where
  "queriesKey queries =
     (let newMap = fold (\<lambda>(key, query, args) newMap. js_assign newMap key (JStr (createQueryKey query args)))
                     queries []
      in JSON_stringify (JObj newMap))"

definition useQueriesSwr_flag :: "bool \<Rightarrow> (string \<times> funref \<times> json) list \<Rightarrow> ctx \<Rightarrow> jsval \<times> ctx" where
  "useQueriesSwr_flag flag =
     (if \<not> flag then useQueries
      else (\<lambda>queries c.
        let (result, c1) = useQueries queries c;
            isLoading = queriesLoading result;
            key = queriesKey queries;
            c2 = useEffect
                   (\<lambda>c. if \<not> isLoading then store_set (js_set (store_get c) key result) c else c)
                   result c1;
            stale = js_get (store_get c1) key
        in (if isLoading then nullish stale result else result, c2)))"

definition useQueriesSwr :: "(string \<times> funref \<times> json) list \<Rightarrow> ctx \<Rightarrow> jsval \<times> ctx" where
  "useQueriesSwr = useQueriesSwr_flag FEATURE_FLAG_USE_QUERY_SWR"

subsection \<open>\<^verbatim>\<open>useQuerySwr\<close>\<close>

text \<open>\<open>args\<close> is the rest parameter \<^verbatim>\<open>...args\<close>, an array, and goes to the key as such.\<close>

definition useQuerySwr_flag :: "bool \<Rightarrow> funref \<Rightarrow> json list \<Rightarrow> ctx \<Rightarrow> jsval \<times> ctx" where
  "useQuerySwr_flag flag =
     (if \<not> flag then useQuery
      else (\<lambda>name args c.
        let (result, c1) = useQuery name args c;
            key = createQueryKey name (JArr args);
            c2 = useEffect
                   (\<lambda>c. if result \<noteq> VUndefined then store_set (js_set (store_get c) key result) c
                        else c)
                   result c1;
            stale = js_get (store_get c1) key
        in (if result = VUndefined then nullish stale result else result, c2)))"

definition useQuerySwr :: "funref \<Rightarrow> json list \<Rightarrow> ctx \<Rightarrow> jsval \<times> ctx" where
  "useQuerySwr = useQuerySwr_flag FEATURE_FLAG_USE_QUERY_SWR"

subsection \<open>\<^verbatim>\<open>usePaginatedQuerySwr\<close>\<close>

definition usePaginatedQuerySwr_flag :: "bool \<Rightarrow> funref \<Rightarrow> json list \<Rightarrow> ctx \<Rightarrow> jsval \<times> ctx" where
  "usePaginatedQuerySwr_flag flag =
     (if \<not> flag then usePaginatedQuery
      else (\<lambda>name args c.
        let (result, c1) = usePaginatedQuery name args c;
            key = createQueryKey name (JArr args);
            loadMore = VLoadMore key (js_prop result ''loadMore'');
            c2 = useEffect
                   (\<lambda>c. if js_prop result ''status'' \<noteq> VStr ''LoadingMore'' \<and>
                           js_prop result ''status'' \<noteq> VStr ''LoadingFirstPage''
                        then store_set (js_set (store_get c) key result) c
                        else c)
                   (js_prop result ''status'') c1;
            stale = js_get (store_get c1) key;
            finalResult =
              (if js_prop result ''status'' = VStr ''LoadingFirstPage'' then nullish stale result
               else result)
        in (VObj (js_set (js_spread finalResult) ''loadMore'' loadMore), c2)))"

definition usePaginatedQuerySwr :: "funref \<Rightarrow> json list \<Rightarrow> ctx \<Rightarrow> jsval \<times> ctx" where
  "usePaginatedQuerySwr = usePaginatedQuerySwr_flag FEATURE_FLAG_USE_QUERY_SWR"

text \<open>
  Two contexts to start from: a provider that currently delivers \<open>v\<close> to every
  subscription, and the first evaluation of an instance, with the atom holding \<open>m\<close>.
\<close>

definition delivering :: "jsval \<Rightarrow> provider" where
  "delivering v =
     \<lparr>subscribe = (\<lambda>name args. v), subscribeMany = (\<lambda>queries. v),
      subscribePaginated = (\<lambda>name args. v)\<rparr>"

definition first_evaluation :: "provider \<Rightarrow> (string \<times> jsval) list \<Rightarrow> ctx" where
  "first_evaluation p m = \<lparr>convex = p, cacheAtom = m, events = [], lastDep = None, sameRef = False\<rparr>"

section \<open>Notions the properties are stated with\<close>

text \<open>
  Two argument values are the same up to the insertion order of object properties: the
  same primitive, arrays that are the same element by element, or objects with the same
  field names whose fields are the same.
\<close>

inductive same_value :: "json \<Rightarrow> json \<Rightarrow> bool" where
  same_null: "same_value JNull JNull"
| same_bool: "same_value (JBool b) (JBool b)"
| same_num: "same_value (JNum n) (JNum n)"
| same_str: "same_value (JStr s) (JStr s)"
| same_arr: "list_all2 same_value xs ys \<Longrightarrow> same_value (JArr xs) (JArr ys)"
| same_obj:
    "distinct (map fst ps) \<Longrightarrow> distinct (map fst qs) \<Longrightarrow> fst ` set ps = fst ` set qs \<Longrightarrow>
     (\<forall>k v w. (k, v) \<in> set ps \<longrightarrow> (k, w) \<in> set qs \<longrightarrow> same_value v w) \<Longrightarrow>
     same_value (JObj ps) (JObj qs)"

code_pred same_value .

text \<open>
  The other derivation of the composite key that the specification describes, for
  comparison with \<open>queriesKey\<close>: \<^verbatim>\<open>JSON.stringify\<close> applied to the declaration itself,
  every name with its identity and its arguments as they were passed.
\<close>

definition spec_serializeDeclaration :: "(string \<times> funref \<times> json) list \<Rightarrow> string" where
  "spec_serializeDeclaration queries =
     JSON_stringify (JObj (map (\<lambda>(name, query, args).
       (name, JObj [(''query'', JStr (getFunctionName query)), (''args'', args)])) queries))"

text \<open>The names of a declaration, each with the key derived for it, in declaration order.\<close>

definition derivedKeys :: "(string \<times> funref \<times> json) list \<Rightarrow> (string \<times> string) list" where
  "derivedKeys queries = map (\<lambda>(name, query, args). (name, createQueryKey query args)) queries"

text \<open>
  The values the atom can take. It starts as the empty object, and only the three hooks'
  effects and the \<^verbatim>\<open>loadMore\<close> closures assign it. The types of the module bound the
  calls: \<^verbatim>\<open>useQuerySwr\<close> takes at most one argument after the function reference,
  \<^verbatim>\<open>usePaginatedQuerySwr\<close> takes two (the arguments and the options), and
  \<^verbatim>\<open>usePaginatedQuery\<close> returns an object.
\<close>

inductive reachable :: "(string \<times> jsval) list \<Rightarrow> bool" where
  reach_init: "reachable []"
| reach_query:
    "reachable (cacheAtom c) \<Longrightarrow> length args \<le> 1 \<Longrightarrow>
     reachable (cacheAtom (snd (useQuerySwr name args c)))"
| reach_queries:
    "reachable (cacheAtom c) \<Longrightarrow> reachable (cacheAtom (snd (useQueriesSwr queries c)))"
| reach_paginated:
    "reachable (cacheAtom c) \<Longrightarrow> length args = 2 \<Longrightarrow>
     subscribePaginated (convex c) name args = VObj ps \<Longrightarrow>
     reachable (cacheAtom (snd (usePaginatedQuerySwr name args c)))"
| reach_loadMore:
    "reachable (cacheAtom c) \<Longrightarrow> length args = 2 \<Longrightarrow>
     reachable (cacheAtom (js_call (VLoadMore (createQueryKey name (JArr args)) original) numItems c))"

text \<open>
  The contexts that one mounted instance of \<^verbatim>\<open>useQueriesSwr\<close> is evaluated in, each with
  the declaration of the instance's previous evaluation. At the mount no effect has run.
  After an evaluation with the declaration \<open>queries\<close>, the context is the one the
  evaluation left. Until the next evaluation, the rest of the program may change the
  context, but not the dependency that React keeps for the instance's effect, nor the
  entry of the atom under the instance's composite key. \<^verbatim>\<open>useQueries\<close> keeps its result
  object per declaration: an evaluation is given the result object of the previous
  evaluation only if the declaration is the one of the previous evaluation.
\<close>

inductive batch_instance :: "(string \<times> funref \<times> json) list option \<Rightarrow> ctx \<Rightarrow> bool" where
  batch_mount: "lastDep c = None \<Longrightarrow> batch_instance None c"
| batch_evaluated:
    "batch_instance prev c \<Longrightarrow> sameRef c \<longrightarrow> prev = Some queries \<Longrightarrow>
     subscribeMany (convex c) queries = VObj rs \<Longrightarrow>
     batch_instance (Some queries) (snd (useQueriesSwr queries c))"
| batch_between:
    "batch_instance (Some queries) c \<Longrightarrow> lastDep c' = lastDep c \<Longrightarrow>
     map_of (cacheAtom c') (queriesKey queries) = map_of (cacheAtom c) (queriesKey queries) \<Longrightarrow>
     batch_instance (Some queries) c'"

section \<open>Property lists\<close>

lemma map_of_js_insert:
  "map_of ps k = None \<Longrightarrow> map_of (js_insert k v ps) = (map_of ps)(k \<mapsto> v)"
proof (induction ps)
  case Nil
  then show ?case by simp
next
  case (Cons p ps)
  obtain k' v' where p: "p = (k', v')"
    by (cases p)
  from Cons.prems p have ne: "k' \<noteq> k" and none: "map_of ps k = None"
    by (auto split: if_splits)
  show ?case
    using Cons.IH [OF none] ne by (auto simp: p fun_upd_twist)
qed

lemma map_of_update_existing:
  "map_of (map (\<lambda>(k', v'). if k' = k then (k', v) else (k', v')) ps) x =
     (if x = k then map_option (\<lambda>_. v) (map_of ps x) else map_of ps x)"
  by (induction ps) auto

lemma map_of_js_set: "map_of (js_set ps k v) = (map_of ps)(k \<mapsto> v)"
proof (cases "map_of ps k")
  case None
  then show ?thesis
    by (simp add: js_set_def map_of_js_insert)
next
  case (Some w)
  then show ?thesis
    by (auto simp: js_set_def map_of_update_existing)
qed

lemma map_of_js_delete: "map_of (js_delete ps k) = (map_of ps)(k := None)"
  unfolding js_delete_def by (induction ps) auto

lemma js_get_js_set: "js_get (js_set ps k v) x = (if x = k then v else js_get ps x)"
  by (simp add: js_get_def map_of_js_set)

lemma js_get_js_delete: "js_get (js_delete ps k) x = (if x = k then VUndefined else js_get ps x)"
  by (simp add: js_get_def map_of_js_delete)

section \<open>Decimal numerals can be read back\<close>

lemma below_10: "d < 10 \<Longrightarrow> d \<in> {0, 1, 2, 3, 4, 5, 6, 7, 8, 9 :: nat}"
  by auto

lemma below_16: "d < 16 \<Longrightarrow> d \<in> {0, 1, 2, 3, 4, 5, 6, 7, 8, 9, 10, 11, 12, 13, 14, 15 :: nat}"
  by simp arith

lemma of_char_digit_char: "d < 10 \<Longrightarrow> of_char (digit_char d) = 48 + d"
  by (drule below_10) (auto simp: digit_char_def)

lemma is_digit_digit_char: "d < 10 \<Longrightarrow> is_digit (digit_char d)"
  by (drule below_10) (auto simp: digit_char_def is_digit_def)

lemma show_nat_not_Nil: "show_nat n \<noteq> []"
  by (subst show_nat.simps) simp

lemma show_nat_digits: "c \<in> set (show_nat n) \<Longrightarrow> is_digit c"
proof (induction n rule: show_nat.induct)
  case (1 n)
  show ?case
  proof (cases "n < 10")
    case True
    with "1.prems" show ?thesis
      by (subst (asm) show_nat.simps) (simp add: is_digit_digit_char)
  next
    case False
    from "1.prems" have "c \<in> set (show_nat (n div 10)) \<or> c = digit_char (n mod 10)"
      by (subst (asm) show_nat.simps) (auto simp add: False)
    with "1.IH" [OF False] show ?thesis
      by (auto simp: is_digit_digit_char)
  qed
qed

lemma dec_value_snoc: "dec_value (s @ [c]) = 10 * dec_value s + (of_char c - 48)"
  by (simp add: dec_value_def)

lemma dec_value_show_nat: "dec_value (show_nat n) = n"
proof (induction n rule: show_nat.induct)
  case (1 n)
  show ?case
  proof (cases "n < 10")
    case True
    then show ?thesis
      by (subst show_nat.simps) (simp add: dec_value_def of_char_digit_char)
  next
    case False
    have "dec_value (show_nat n) = 10 * dec_value (show_nat (n div 10)) + (of_char (digit_char (n mod 10)) - 48)"
      by (subst show_nat.simps) (simp add: False dec_value_snoc)
    also have "\<dots> = 10 * (n div 10) + n mod 10"
      by (simp add: "1.IH" [OF False] of_char_digit_char)
    finally show ?thesis
      by simp
  qed
qed

lemma show_nat_inj: "show_nat n = show_nat m \<Longrightarrow> n = m"
  by (metis dec_value_show_nat)

lemma digits_split:
  "ds @ r = es @ r' \<Longrightarrow> \<forall>c\<in>set ds. is_digit c \<Longrightarrow> \<forall>c\<in>set es. is_digit c \<Longrightarrow>
   no_digit_ahead r \<Longrightarrow> no_digit_ahead r' \<Longrightarrow> ds = es \<and> r = r'"
proof (induction ds arbitrary: es)
  case Nil
  then show ?case
    by (cases es) (auto simp: no_digit_ahead_def)
next
  case (Cons d ds)
  then show ?case
    by (cases es) (auto simp: no_digit_ahead_def)
qed

lemma show_int_head: "\<exists>c t. show_int i = c # t \<and> (c = CHR ''-'' \<or> is_digit c)"
proof (cases "i < 0")
  case True
  then show ?thesis
    by (simp add: show_int_def)
next
  case False
  obtain c t where ct: "show_nat (nat i) = c # t"
    using show_nat_not_Nil [of "nat i"] by (cases "show_nat (nat i)") auto
  then have "is_digit c"
    using show_nat_digits [of c "nat i"] by simp
  with ct False show ?thesis
    by (simp add: show_int_def)
qed

lemma not_digit_minus: "\<not> is_digit CHR ''-''"
  by (simp add: is_digit_def)

lemma show_int_split:
  assumes "show_int i @ r = show_int j @ r'" and "no_digit_ahead r" and "no_digit_ahead r'"
  shows "i = j \<and> r = r'"
proof -
  have hd_nat: "\<And>n. \<exists>c t. show_nat n = c # t \<and> is_digit c"
  proof -
    fix n
    obtain c t where ct: "show_nat n = c # t"
      using show_nat_not_Nil [of n] by (cases "show_nat n") auto
    then have "is_digit c"
      using show_nat_digits [of c n] by simp
    with ct show "\<exists>c t. show_nat n = c # t \<and> is_digit c"
      by blast
  qed
  have digits: "\<And>n. \<forall>c\<in>set (show_nat n). is_digit c"
    using show_nat_digits by blast
  show ?thesis
  proof (cases "i < 0")
    case True
    show ?thesis
    proof (cases "j < 0")
      case jneg: True
      from assms(1) True jneg have "show_nat (nat (- i)) @ r = show_nat (nat (- j)) @ r'"
        by (simp add: show_int_def)
      from digits_split [OF this digits digits assms(2,3)] True jneg show ?thesis
        by (auto dest!: show_nat_inj)
    next
      case False
      with assms(1) True hd_nat [of "nat j"] show ?thesis
        by (auto simp: show_int_def not_digit_minus)
    qed
  next
    case False
    show ?thesis
    proof (cases "j < 0")
      case True
      with assms(1) False hd_nat [of "nat i"] show ?thesis
        by (auto simp: show_int_def not_digit_minus)
    next
      case jpos: False
      from assms(1) False jpos have "show_nat (nat i) @ r = show_nat (nat j) @ r'"
        by (simp add: show_int_def)
      from digits_split [OF this digits digits assms(2,3)] False jpos show ?thesis
        by (auto dest!: show_nat_inj)
    qed
  qed
qed

section \<open>Quoted strings can be read back\<close>

lemma hex_digit_inj: "d < 16 \<Longrightarrow> e < 16 \<Longrightarrow> hex_digit d = hex_digit e \<Longrightarrow> d = e"
  by (drule below_16, drule below_16) (auto simp: hex_digit_def)

lemma low_char_eq:
  assumes "(of_char c :: nat) < 32" and "(of_char d :: nat) < 32"
    and "hex_digit (of_char c div 16) = hex_digit (of_char d div 16)"
    and "hex_digit (of_char c mod 16) = hex_digit (of_char d mod 16)"
  shows "c = d"
proof -
  have "(of_char c :: nat) div 16 = of_char d div 16"
    using assms(1,2,3) by (intro hex_digit_inj) auto
  moreover have "(of_char c :: nat) mod 16 = of_char d mod 16"
    using assms(4) by (intro hex_digit_inj) auto
  ultimately have "(of_char c :: nat) = of_char d"
    by (metis div_mult_mod_eq)
  then show ?thesis
    by simp
qed

lemma escape_char_head: "\<exists>x t. escape_char c = x # t \<and> x \<noteq> CHR 0x22"
  by (auto simp: escape_char_def)

lemma escape_char_split:
  "escape_char c @ r = escape_char d @ r' \<Longrightarrow> c = d \<and> r = r'"
  by (auto simp: escape_char_def split: if_splits dest: low_char_eq)

lemma escaped_split:
  "concat (map escape_char s) @ CHR 0x22 # r = concat (map escape_char t) @ CHR 0x22 # r' \<Longrightarrow>
   s = t \<and> r = r'"
proof (induction s arbitrary: t)
  case Nil
  show ?case
  proof (cases t)
    case Nil
    with Nil.prems show ?thesis by simp
  next
    case (Cons d t')
    with Nil.prems escape_char_head [of d] show ?thesis
      by auto
  qed
next
  case (Cons c s)
  show ?case
  proof (cases t)
    case Nil
    with Cons.prems escape_char_head [of c] show ?thesis
      by auto
  next
    case (Cons d t')
    with Cons.prems have
      "escape_char c @ (concat (map escape_char s) @ CHR 0x22 # r) =
       escape_char d @ (concat (map escape_char t') @ CHR 0x22 # r')"
      by simp
    from escape_char_split [OF this] Cons.IH [of t'] Cons show ?thesis
      by simp
  qed
qed

lemma QuoteJSONString_split:
  "QuoteJSONString s @ r = QuoteJSONString t @ r' \<Longrightarrow> s = t \<and> r = r'"
  using escaped_split [of s r t r'] by (simp add: QuoteJSONString_def)

lemma join_commas_Cons:
  "join_commas (s # ss) = s @ (if ss = [] then [] else CHR '','' # join_commas ss)"
  by (cases ss) simp_all

lemma join_split:
  assumes elems: "\<And>x y r r'. x \<in> set xs \<Longrightarrow> g x @ r = g y @ r' \<Longrightarrow>
      no_digit_ahead r \<Longrightarrow> no_digit_ahead r' \<Longrightarrow> x = y \<and> r = r'"
    and heads: "\<And>x. \<exists>c t. g x = c # t \<and> c \<noteq> e"
    and e: "\<not> is_digit e" "e \<noteq> CHR '',''"
    and eq: "join_commas (map g xs) @ e # r = join_commas (map g ys) @ e # r'"
  shows "xs = ys \<and> r = r'"
  using elems eq
proof (induction xs arbitrary: ys)
  case Nil
  show ?case
  proof (cases ys)
    case Nil
    with Nil.prems show ?thesis by simp
  next
    case (Cons y ys')
    with Nil.prems(2) heads [of y] show ?thesis
      by (auto simp: join_commas_Cons)
  qed
next
  case (Cons x xs)
  show ?case
  proof (cases ys)
    case Nil
    with Cons.prems(2) heads [of x] show ?thesis
      by (auto simp: join_commas_Cons)
  next
    case ys: (Cons y ys')
    let ?R = "(if xs = [] then [] else CHR '','' # join_commas (map g xs)) @ e # r"
    let ?R' = "(if ys' = [] then [] else CHR '','' # join_commas (map g ys')) @ e # r'"
    have comma: "\<not> is_digit CHR '',''"
      by (simp add: is_digit_def)
    have okR: "no_digit_ahead ?R" and okR': "no_digit_ahead ?R'"
      using e comma by (auto simp: no_digit_ahead_def)
    from Cons.prems(2) ys have "g x @ ?R = g y @ ?R'"
      by (simp add: join_commas_Cons)
    from Cons.prems(1) [OF _ this okR okR'] have xy: "x = y" and R: "?R = ?R'"
      by simp_all
    have "xs = ys' \<and> r = r'"
    proof (cases "xs = []")
      case True
      with R e show ?thesis
        by (cases "ys' = []") auto
    next
      case False
      with R e have ne: "ys' \<noteq> []"
        by (cases "ys' = []") auto
      with R False have rest: "join_commas (map g xs) @ e # r = join_commas (map g ys') @ e # r'"
        by simp
      show ?thesis
      proof (rule Cons.IH)
        fix x' y' s s'
        assume "x' \<in> set xs" and "g x' @ s = g y' @ s'" and "no_digit_ahead s" and "no_digit_ahead s'"
        then show "x' = y' \<and> s = s'"
          using Cons.prems(1) [of x' s y' s'] by simp
      next
        show "join_commas (map g xs) @ e # r = join_commas (map g ys') @ e # r'"
          by (rule rest)
      qed
    qed
    with xy ys show ?thesis
      by simp
  qed
qed

section \<open>\<^verbatim>\<open>JSON.stringify\<close> is injective\<close>

text \<open>
  A serialised value followed by anything that does not start with a digit determines
  both the value and what follows: the first character tells the kind of value, numerals
  end at the first character that is not a digit, strings at the first unescaped quote,
  and arrays and objects are read element by element.
\<close>

lemma stringify_head:
  "\<exists>c t. JSON_stringify v = c # t \<and>
     (case v of JNull \<Rightarrow> c = CHR ''n'' | JBool b \<Rightarrow> c = CHR ''t'' \<or> c = CHR ''f''
      | JNum n \<Rightarrow> c = CHR ''-'' \<or> is_digit c | JStr s \<Rightarrow> c = CHR 0x22
      | JArr xs \<Rightarrow> c = CHR ''['' | JObj ps \<Rightarrow> c = CHR ''{'')"
  using show_int_head by (cases v) (auto simp: QuoteJSONString_def)

lemma stringify_same_kind:
  assumes "JSON_stringify v @ r = JSON_stringify w @ r'"
  shows "case v of JNull \<Rightarrow> w = JNull | JBool b \<Rightarrow> (\<exists>b'. w = JBool b')
      | JNum n \<Rightarrow> (\<exists>n'. w = JNum n') | JStr s \<Rightarrow> (\<exists>s'. w = JStr s')
      | JArr xs \<Rightarrow> (\<exists>ys. w = JArr ys) | JObj ps \<Rightarrow> (\<exists>qs. w = JObj qs)"
proof -
  from stringify_head [of v] obtain c t where v: "JSON_stringify v = c # t"
    and cv: "case v of JNull \<Rightarrow> c = CHR ''n'' | JBool b \<Rightarrow> c = CHR ''t'' \<or> c = CHR ''f''
      | JNum n \<Rightarrow> c = CHR ''-'' \<or> is_digit c | JStr s \<Rightarrow> c = CHR 0x22
      | JArr xs \<Rightarrow> c = CHR ''['' | JObj ps \<Rightarrow> c = CHR ''{''"
    by blast
  from stringify_head [of w] obtain d u where w: "JSON_stringify w = d # u"
    and dw: "case w of JNull \<Rightarrow> d = CHR ''n'' | JBool b \<Rightarrow> d = CHR ''t'' \<or> d = CHR ''f''
      | JNum n \<Rightarrow> d = CHR ''-'' \<or> is_digit d | JStr s \<Rightarrow> d = CHR 0x22
      | JArr xs \<Rightarrow> d = CHR ''['' | JObj ps \<Rightarrow> d = CHR ''{''"
    by blast
  from assms v w have "c = d"
    by simp
  with cv dw show ?thesis
    by (cases v; cases w) (auto simp: is_digit_def)
qed

lemma stringify_split:
  "JSON_stringify v @ r = JSON_stringify w @ r' \<Longrightarrow> no_digit_ahead r \<Longrightarrow> no_digit_ahead r' \<Longrightarrow>
   v = w \<and> r = r'"
proof (induction v arbitrary: w r r')
  case JNull
  from stringify_same_kind [OF JNull.prems(1)] have "w = JNull"
    by simp
  with JNull.prems(1) show ?case
    by simp
next
  case (JBool b)
  from stringify_same_kind [OF JBool.prems(1)] obtain b' where "w = JBool b'"
    by auto
  with JBool.prems(1) show ?case
    by (auto split: if_splits)
next
  case (JNum n)
  from stringify_same_kind [OF JNum.prems(1)] obtain n' where "w = JNum n'"
    by auto
  with JNum.prems show_int_split [of n r n' r'] show ?case
    by simp
next
  case (JStr s)
  from stringify_same_kind [OF JStr.prems(1)] obtain s' where "w = JStr s'"
    by auto
  with JStr.prems(1) QuoteJSONString_split [of s r s' r'] show ?case
    by simp
next
  case (JArr xs)
  from stringify_same_kind [OF JArr.prems(1)] obtain ys where w: "w = JArr ys"
    by auto
  with JArr.prems(1) have eq:
    "join_commas (map JSON_stringify xs) @ CHR '']'' # r =
     join_commas (map JSON_stringify ys) @ CHR '']'' # r'"
    by simp
  have "xs = ys \<and> r = r'"
  proof (rule join_split [where g = JSON_stringify and e = "CHR '']''", OF _ _ _ _ eq])
    fix x y s s'
    assume "x \<in> set xs" and "JSON_stringify x @ s = JSON_stringify y @ s'"
      and "no_digit_ahead s" and "no_digit_ahead s'"
    then show "x = y \<and> s = s'"
      by (rule JArr.IH)
  next
    fix x
    show "\<exists>c t. JSON_stringify x = c # t \<and> c \<noteq> CHR '']''"
      using stringify_head [of x] by (cases x) (auto simp: is_digit_def)
  qed (simp_all add: is_digit_def)
  with w show ?case
    by simp
next
  case (JObj ps)
  let ?g = "\<lambda>(k, v). QuoteJSONString k @ '':'' @ JSON_stringify v"
  from stringify_same_kind [OF JObj.prems(1)] obtain qs where w: "w = JObj qs"
    by auto
  with JObj.prems(1) have eq:
    "join_commas (map ?g ps) @ CHR ''}'' # r = join_commas (map ?g qs) @ CHR ''}'' # r'"
    by simp
  have "ps = qs \<and> r = r'"
  proof (rule join_split [where g = ?g and e = "CHR ''}''", OF _ _ _ _ eq])
    fix p q s s'
    assume p: "p \<in> set ps" and pq: "?g p @ s = ?g q @ s'"
      and s: "no_digit_ahead s" "no_digit_ahead s'"
    obtain k v where pkv: "p = (k, v)"
      by (cases p)
    obtain k' v' where qkv: "q = (k', v')"
      by (cases q)
    from pq pkv qkv have
      "QuoteJSONString k @ (CHR '':'' # JSON_stringify v @ s) =
       QuoteJSONString k' @ (CHR '':'' # JSON_stringify v' @ s')"
      by simp
    from QuoteJSONString_split [OF this] have k: "k = k'"
      and vs: "JSON_stringify v @ s = JSON_stringify v' @ s'"
      by simp_all
    from p pkv have "v \<in> Basic_BNFs.snds p"
      by simp
    from JObj.IH [OF p this vs s] k pkv qkv show "p = q \<and> s = s'"
      by simp
  next
    fix p
    show "\<exists>c t. ?g p = c # t \<and> c \<noteq> CHR ''}''"
      by (cases p) (simp add: QuoteJSONString_def)
  qed (simp_all add: is_digit_def)
  with w show ?case
    by simp
qed

lemma JSON_stringify_inj: "JSON_stringify v = JSON_stringify w \<longleftrightarrow> v = w"
  using stringify_split [of v "[]" w "[]"] by (auto simp: no_digit_ahead_def)

section \<open>The key deriver: determinism and injectivity\<close>

lemma distinct_keys_sort:
  "distinct (map fst ps) \<Longrightarrow> distinct (map fst (sort_key fst ps))"
  by (simp add: distinct_map)

lemma sorted_keys_eq:
  assumes "distinct (map fst ps)" and "distinct (map fst qs)" and "fst ` set ps = fst ` set qs"
  shows "map fst (sort_key fst ps) = map fst (sort_key fst qs)"
proof (rule sorted_distinct_set_unique)
  show "sorted (map fst (sort_key fst ps))" and "sorted (map fst (sort_key fst qs))"
    by (rule sorted_sort_key)+
  show "distinct (map fst (sort_key fst ps))" and "distinct (map fst (sort_key fst qs))"
    using assms(1,2) by (simp_all add: distinct_keys_sort)
  show "set (map fst (sort_key fst ps)) = set (map fst (sort_key fst qs))"
    using assms(3) by simp
qed

lemma fold_fields_cong:
  "list_all2 (\<lambda>p q. fst p = fst q \<and> f (snd p) = f (snd q)) xs ys \<Longrightarrow>
   fold (\<lambda>(k, v) out. js_set out k (f v)) xs acc = fold (\<lambda>(k, v) out. js_set out k (f v)) ys acc"
proof (induction xs ys arbitrary: acc rule: list_all2_induct)
  case Nil
  show ?case by simp
next
  case (Cons x xs y ys)
  then show ?case
    by (cases x; cases y) simp
qed

lemma convexToJson_same:
  "same_value a b \<Longrightarrow> convexToJson a = convexToJson b"
proof (induction rule: same_value.induct)
  case (same_arr xs ys)
  then have "map convexToJson xs = map convexToJson ys"
    by (induction rule: list_all2_induct) simp_all
  then show ?case
    by simp
next
  case (same_obj ps qs)
  let ?xs = "sort_key fst ps" and ?ys = "sort_key fst qs"
  have keys: "map fst ?xs = map fst ?ys"
    using same_obj(1,2,3) by (rule sorted_keys_eq)
  then have len: "length ?xs = length ?ys"
    by (metis length_map)
  have "list_all2 (\<lambda>p q. fst p = fst q \<and> convexToJson (snd p) = convexToJson (snd q)) ?xs ?ys"
  proof (rule list_all2_all_nthI [OF len])
    fix i
    assume i: "i < length ?xs"
    then have j: "i < length ?ys"
      using len by simp
    from keys i j have k: "fst (?xs ! i) = fst (?ys ! i)"
      by (metis nth_map)
    from i have "?xs ! i \<in> set ps"
      by (metis nth_mem set_sort)
    then have p: "(fst (?xs ! i), snd (?xs ! i)) \<in> set ps"
      by simp
    from j have "?ys ! i \<in> set qs"
      by (metis nth_mem set_sort)
    then have q: "(fst (?xs ! i), snd (?ys ! i)) \<in> set qs"
      by (simp add: k)
    from same_obj(4) p q have "convexToJson (snd (?xs ! i)) = convexToJson (snd (?ys ! i))"
      by blast
    with k show "fst (?xs ! i) = fst (?ys ! i) \<and>
        convexToJson (snd (?xs ! i)) = convexToJson (snd (?ys ! i))"
      by simp
  qed
  then show ?case
    by (simp add: fold_fields_cong)
qed simp_all

lemma createQueryKey_eq_iff:
  "createQueryKey q1 a1 = createQueryKey q2 a2 \<longleftrightarrow>
     getFunctionName q1 = getFunctionName q2 \<and> convexToJson a1 = convexToJson a2"
  by (simp add: createQueryKey_def JSON_stringify_inj del: JSON_stringify.simps)

text \<open>
  C6 (key determinism and argument-order independence). Two argument values that are
  the same up to the insertion order of object properties, at any depth, get the same
  key from \<^verbatim>\<open>createQueryKey\<close>; and two keys are equal only if the canonical names
  are equal and the canonical encodings of the arguments are equal, so pairs that
  differ in either get different keys.
\<close>

theorem createQueryKey_deterministic:
  "(same_value a b \<longrightarrow> createQueryKey q a = createQueryKey q b) \<and>
   (createQueryKey q1 a1 = createQueryKey q2 a2 \<longleftrightarrow>
      getFunctionName q1 = getFunctionName q2 \<and> convexToJson a1 = convexToJson a2)"
  using convexToJson_same [of a b] createQueryKey_eq_iff [of q a q b] createQueryKey_eq_iff [of q1 a1 q2 a2]
  by blast

theorem createQueryKey_deterministic_witness:
  "same_value
     (JArr [JObj [(''tab'', JStr ''tab1''), (''count'', JNum 10), (''filter'', JObj [(''a'', JNull), (''b'', JBool True)])]])
     (JArr [JObj [(''filter'', JObj [(''b'', JBool True), (''a'', JNull)]), (''count'', JNum 10), (''tab'', JStr ''tab1'')]]) \<and>
   createQueryKey (FunctionReference ''myFunctions:listNumbers'')
     (JArr [JObj [(''tab'', JStr ''tab1''), (''count'', JNum 10), (''filter'', JObj [(''a'', JNull), (''b'', JBool True)])]]) =
   createQueryKey (FunctionReference ''myFunctions:listNumbers'')
     (JArr [JObj [(''filter'', JObj [(''b'', JBool True), (''a'', JNull)]), (''count'', JNum 10), (''tab'', JStr ''tab1'')]]) \<and>
   createQueryKey (FunctionReference ''myFunctions:listNumbers'') (JArr [JObj [(''tab'', JStr ''tab1'')]]) \<noteq>
   createQueryKey (FunctionReference ''myFunctions:listNumbers'') (JArr [JObj [(''tab'', JStr ''tab2'')]]) \<and>
   createQueryKey (FunctionReference ''myFunctions:listNumbers'') (JArr []) \<noteq>
   createQueryKey (FunctionReference ''myFunctions:addNumber'') (JArr [])"
proof -
  let ?f = "FunctionReference ''myFunctions:listNumbers''"
  let ?g = "FunctionReference ''myFunctions:addNumber''"
  let ?a = "JArr [JObj [(''tab'', JStr ''tab1''), (''count'', JNum 10), (''filter'', JObj [(''a'', JNull), (''b'', JBool True)])]]"
  let ?b = "JArr [JObj [(''filter'', JObj [(''b'', JBool True), (''a'', JNull)]), (''count'', JNum 10), (''tab'', JStr ''tab1'')]]"
  have inner: "same_value (JObj [(''a'', JNull), (''b'', JBool True)]) (JObj [(''b'', JBool True), (''a'', JNull)])"
    by (rule same_obj) (auto intro: same_value.intros)
  have "same_value (JObj [(''tab'', JStr ''tab1''), (''count'', JNum 10), (''filter'', JObj [(''a'', JNull), (''b'', JBool True)])])
      (JObj [(''filter'', JObj [(''b'', JBool True), (''a'', JNull)]), (''count'', JNum 10), (''tab'', JStr ''tab1'')])"
    by (rule same_obj) (auto intro: same_value.intros inner)
  then have same: "same_value ?a ?b"
    by (intro same_arr) simp
  have k1: "createQueryKey ?f ?a = createQueryKey ?f ?b"
    using createQueryKey_deterministic [of ?a ?b ?f] same by blast
  have enc: "convexToJson (JArr [JObj [(''tab'', JStr ''tab1'')]]) \<noteq> convexToJson (JArr [JObj [(''tab'', JStr ''tab2'')]])"
    by (simp add: js_set_def)
  have k2: "createQueryKey ?f (JArr [JObj [(''tab'', JStr ''tab1'')]]) \<noteq>
      createQueryKey ?f (JArr [JObj [(''tab'', JStr ''tab2'')]])"
    using createQueryKey_deterministic [of _ _ _ ?f "JArr [JObj [(''tab'', JStr ''tab1'')]]" ?f
        "JArr [JObj [(''tab'', JStr ''tab2'')]]"] enc by blast
  have names: "getFunctionName ?f \<noteq> getFunctionName ?g"
    by simp
  have k3: "createQueryKey ?f (JArr []) \<noteq> createQueryKey ?g (JArr [])"
    using createQueryKey_deterministic [of _ _ _ ?f "JArr []" ?g "JArr []"] names by blast
  from same k1 k2 k3 show ?thesis
    by blast
qed

section \<open>The composite key of a batch\<close>

lemma js_insert_append: "\<not> isArrayIndex k \<Longrightarrow> js_insert k v ps = ps @ [(k, v)]"
  by (induction ps) auto

lemma js_set_fresh:
  "k \<notin> fst ` set ps \<Longrightarrow> \<not> isArrayIndex k \<Longrightarrow> js_set ps k v = ps @ [(k, v)]"
  by (simp add: js_set_def js_insert_append map_of_eq_None_iff)

lemma js_assign_fresh:
  "k \<notin> fst ` set ps \<Longrightarrow> \<not> isArrayIndex k \<Longrightarrow> k \<noteq> ''__proto__'' \<Longrightarrow>
   js_assign ps k v = ps @ [(k, v)]"
  by (simp add: js_assign_def js_set_fresh)

lemma fold_newMap:
  "distinct (map fst qs) \<Longrightarrow>
   \<forall>n\<in>fst ` set qs. \<not> isArrayIndex n \<and> n \<noteq> ''__proto__'' \<and> n \<notin> fst ` set acc \<Longrightarrow>
   fold (\<lambda>(key, query, args) newMap. js_assign newMap key (JStr (createQueryKey query args))) qs acc =
     acc @ map (\<lambda>(n, k). (n, JStr k)) (derivedKeys qs)"
proof (induction qs arbitrary: acc)
  case Nil
  show ?case by (simp add: derivedKeys_def)
next
  case (Cons q qs)
  obtain n f a where q: "q = (n, f, a)"
    by (cases q)
  let ?acc = "acc @ [(n, JStr (createQueryKey f a))]"
  from Cons.prems q have step: "js_assign acc n (JStr (createQueryKey f a)) = ?acc"
    by (intro js_assign_fresh) auto
  from Cons.prems q have "distinct (map fst qs)"
    and "\<forall>m\<in>fst ` set qs. \<not> isArrayIndex m \<and> m \<noteq> ''__proto__'' \<and> m \<notin> fst ` set ?acc"
    by auto
  from Cons.IH [OF this] show ?case
    by (simp add: q step derivedKeys_def)
qed

lemma queriesKey_derived:
  "queriesKey queries =
     JSON_stringify (JObj (fold (\<lambda>(n, k) newMap. js_assign newMap n (JStr k)) (derivedKeys queries) []))"
proof -
  have "fold (\<lambda>(key, query, args) newMap. js_assign newMap key (JStr (createQueryKey query args))) qs acc =
      fold (\<lambda>(n, k) newMap. js_assign newMap n (JStr k)) (derivedKeys qs) acc" for qs acc
    by (induction qs arbitrary: acc) (auto simp: derivedKeys_def)
  then show ?thesis
    by (simp add: queriesKey_def Let_def del: JSON_stringify.simps)
qed

lemma queriesKey_plain:
  assumes "distinct (map fst qs)" and "\<forall>n\<in>fst ` set qs. \<not> isArrayIndex n \<and> n \<noteq> ''__proto__''"
  shows "queriesKey qs = JSON_stringify (JObj (map (\<lambda>(n, k). (n, JStr k)) (derivedKeys qs)))"
  using fold_newMap [OF assms(1), of "[]"] assms(2)
  by (simp add: queriesKey_def Let_def del: JSON_stringify.simps)

lemma map_JStr_inj:
  fixes xs ys :: "(string \<times> string) list"
  shows "map (\<lambda>(n, k). (n, JStr k)) xs = map (\<lambda>(n, k). (n, JStr k)) ys \<longleftrightarrow> xs = ys"
proof -
  have "inj (\<lambda>(n :: string, k). (n, JStr k))"
    by (auto simp: inj_on_def)
  then show ?thesis
    by (rule inj_map_eq_map)
qed

text \<open>A sub-query named \<^verbatim>\<open>__proto__\<close> leaves \<^verbatim>\<open>newMap\<close> as it is.\<close>

lemma newMap_no_proto:
  "''__proto__'' \<notin> fst ` set acc \<Longrightarrow>
   ''__proto__'' \<notin> fst ` set (fold (\<lambda>(key, query, args) newMap.
      js_assign newMap key (JStr (createQueryKey query args))) qs acc)"
proof (induction qs arbitrary: acc)
  case Nil
  then show ?case by simp
next
  case (Cons q qs)
  obtain n f a where q: "q = (n, f, a)"
    by (cases q)
  have "fst ` set (js_assign acc n v) \<subseteq> insert n (fst ` set acc)" for v
    by (auto simp: js_assign_def dom_map_of_conv_image_fst [symmetric] map_of_js_set split: if_splits)
  with Cons.prems have "''__proto__'' \<notin> fst ` set (js_assign acc n (JStr (createQueryKey f a)))"
    by (cases "n = ''__proto__''") (auto simp: js_assign_def map_of_eq_None_iff)
  from Cons.IH [OF this] show ?case
    by (simp add: q)
qed

lemma fold_newMap_proto:
  "''__proto__'' \<notin> fst ` set acc \<Longrightarrow>
   fold (\<lambda>(key, query, args) newMap. js_assign newMap key (JStr (createQueryKey query args)))
     (filter (\<lambda>q. fst q \<noteq> ''__proto__'') qs) acc =
   fold (\<lambda>(key, query, args) newMap. js_assign newMap key (JStr (createQueryKey query args))) qs acc"
proof (induction qs arbitrary: acc)
  case Nil
  show ?case by simp
next
  case (Cons q qs)
  obtain n f a where q: "q = (n, f, a)"
    by (cases q)
  show ?case
  proof (cases "n = ''__proto__''")
    case True
    with Cons.prems have "js_assign acc n (JStr (createQueryKey f a)) = acc"
      by (simp add: js_assign_def map_of_eq_None_iff)
    with Cons.IH [OF Cons.prems] True show ?thesis
      by (simp add: q)
  next
    case False
    have "fst ` set (js_assign acc n v) \<subseteq> insert n (fst ` set acc)" for v
      by (auto simp: js_assign_def dom_map_of_conv_image_fst [symmetric] map_of_js_set split: if_splits)
    with Cons.prems False have "''__proto__'' \<notin> fst ` set (js_assign acc n (JStr (createQueryKey f a)))"
      by auto
    from Cons.IH [OF this] False show ?thesis
      by (simp add: q)
  qed
qed

text \<open>
  C8 (multi-query composite key), as amended. The composite key is derived from the
  already-derived per-name keys: it is the serialisation of the object that gets, by
  assignment, \<^verbatim>\<open>createQueryKey(query, args)\<close> under every name; so two declarations with
  the same names and the same derived keys, in the same order, have the same composite
  key. For declarations whose names are distinct, are not array indices and are not
  \<^verbatim>\<open>__proto__\<close>, two composite keys are equal exactly when the lists of names with their
  derived keys are equal; so for these the composite key is sensitive to the order in
  which the sub-queries are declared. A sub-query named \<^verbatim>\<open>__proto__\<close> does not enter the
  composite key.
\<close>

theorem queriesKey_from_derived_keys:
  "(derivedKeys d1 = derivedKeys d2 \<longrightarrow> queriesKey d1 = queriesKey d2) \<and>
   (distinct (map fst d1) \<and> distinct (map fst d2) \<and>
    (\<forall>n\<in>fst ` set d1 \<union> fst ` set d2. \<not> isArrayIndex n \<and> n \<noteq> ''__proto__'') \<longrightarrow>
      (queriesKey d1 = queriesKey d2 \<longleftrightarrow> derivedKeys d1 = derivedKeys d2) \<and>
      (map fst d1 \<noteq> map fst d2 \<longrightarrow> queriesKey d1 \<noteq> queriesKey d2)) \<and>
   queriesKey (filter (\<lambda>q. fst q \<noteq> ''__proto__'') d1) = queriesKey d1"
proof -
  have 1: "derivedKeys d1 = derivedKeys d2 \<longrightarrow> queriesKey d1 = queriesKey d2"
    by (simp add: queriesKey_derived del: JSON_stringify.simps)
  have 2: "(queriesKey d1 = queriesKey d2 \<longleftrightarrow> derivedKeys d1 = derivedKeys d2) \<and>
      (map fst d1 \<noteq> map fst d2 \<longrightarrow> queriesKey d1 \<noteq> queriesKey d2)"
    if wf: "distinct (map fst d1) \<and> distinct (map fst d2) \<and>
      (\<forall>n\<in>fst ` set d1 \<union> fst ` set d2. \<not> isArrayIndex n \<and> n \<noteq> ''__proto__'')"
  proof -
    from wf have k1: "queriesKey d1 = JSON_stringify (JObj (map (\<lambda>(n, k). (n, JStr k)) (derivedKeys d1)))"
      by (intro queriesKey_plain) auto
    from wf have k2: "queriesKey d2 = JSON_stringify (JObj (map (\<lambda>(n, k). (n, JStr k)) (derivedKeys d2)))"
      by (intro queriesKey_plain) auto
    have iff: "queriesKey d1 = queriesKey d2 \<longleftrightarrow> derivedKeys d1 = derivedKeys d2"
      unfolding k1 k2 by (simp add: JSON_stringify_inj map_JStr_inj del: JSON_stringify.simps)
    have names: "map fst (derivedKeys d) = map fst d" for d
      by (induction d) (auto simp: derivedKeys_def)
    have "map fst d1 \<noteq> map fst d2 \<longrightarrow> derivedKeys d1 \<noteq> derivedKeys d2"
      using names [of d1] names [of d2] by auto
    with iff show ?thesis
      by blast
  qed
  have 3: "queriesKey (filter (\<lambda>q. fst q \<noteq> ''__proto__'') d1) = queriesKey d1"
    using fold_newMap_proto [of "[]" d1] by (simp add: queriesKey_def Let_def del: JSON_stringify.simps)
  from 1 2 3 show ?thesis
    by blast
qed

theorem queriesKey_order_witness:
  "distinct (map fst [(''channel'', FunctionReference ''channels:get'', JObj [(''id'', JNum 1)]),
                      (''messages'', FunctionReference ''messages:list'', JObj [(''channelId'', JNum 1)])]) \<and>
   \<not> isArrayIndex ''channel'' \<and> \<not> isArrayIndex ''messages'' \<and>
   ''channel'' \<noteq> ''__proto__'' \<and> ''messages'' \<noteq> ''__proto__'' \<and>
   queriesKey [(''channel'', FunctionReference ''channels:get'', JObj [(''id'', JNum 1)]),
               (''messages'', FunctionReference ''messages:list'', JObj [(''channelId'', JNum 1)])] \<noteq>
   queriesKey [(''messages'', FunctionReference ''messages:list'', JObj [(''channelId'', JNum 1)]),
               (''channel'', FunctionReference ''channels:get'', JObj [(''id'', JNum 1)])] \<and>
   derivedKeys [(''numbers'', FunctionReference ''myFunctions:listNumbers'',
                 JObj [(''tab'', JStr ''a''), (''count'', JNum 10)])] =
   derivedKeys [(''numbers'', FunctionReference ''myFunctions:listNumbers'',
                 JObj [(''count'', JNum 10), (''tab'', JStr ''a'')])] \<and>
   queriesKey [(''numbers'', FunctionReference ''myFunctions:listNumbers'',
                JObj [(''tab'', JStr ''a''), (''count'', JNum 10)])] =
   queriesKey [(''numbers'', FunctionReference ''myFunctions:listNumbers'',
                JObj [(''count'', JNum 10), (''tab'', JStr ''a'')])] \<and>
   queriesKey [(''__proto__'', FunctionReference ''channels:get'', JObj [(''id'', JNum 1)]),
               (''messages'', FunctionReference ''messages:list'', JObj [(''channelId'', JNum 1)])] =
   queriesKey [(''messages'', FunctionReference ''messages:list'', JObj [(''channelId'', JNum 1)]),
               (''__proto__'', FunctionReference ''channels:get'', JObj [(''id'', JNum 1)])]"
proof -
  let ?e1 = "[(''numbers'', FunctionReference ''myFunctions:listNumbers'',
               JObj [(''tab'', JStr ''a''), (''count'', JNum 10)])]"
  let ?e2 = "[(''numbers'', FunctionReference ''myFunctions:listNumbers'',
               JObj [(''count'', JNum 10), (''tab'', JStr ''a'')])]"
  have "same_value (JObj [(''tab'', JStr ''a''), (''count'', JNum 10)])
      (JObj [(''count'', JNum 10), (''tab'', JStr ''a'')])"
    by (rule same_obj) (auto intro: same_value.intros)
  then have dk: "derivedKeys ?e1 = derivedKeys ?e2"
    by (simp add: derivedKeys_def createQueryKey_eq_iff convexToJson_same)
  have eqk: "queriesKey ?e1 = queriesKey ?e2"
    using queriesKey_from_derived_keys [of ?e1 ?e2] dk by blast
  let ?d1 = "[(''channel'', FunctionReference ''channels:get'', JObj [(''id'', JNum 1)]),
              (''messages'', FunctionReference ''messages:list'', JObj [(''channelId'', JNum 1)])]"
  let ?d2 = "[(''messages'', FunctionReference ''messages:list'', JObj [(''channelId'', JNum 1)]),
              (''channel'', FunctionReference ''channels:get'', JObj [(''id'', JNum 1)])]"
  have a: "\<not> isArrayIndex ''channel''" and b: "\<not> isArrayIndex ''messages''"
    by (simp_all add: isArrayIndex_def dec_value_def show_nat.simps digit_char_def)
  have p: "''channel'' \<noteq> ''__proto__''" "''messages'' \<noteq> ''__proto__''"
    by simp_all
  have d: "distinct (map fst ?d1)" "distinct (map fst ?d2)"
    by simp_all
  have wf: "distinct (map fst ?d1) \<and> distinct (map fst ?d2) \<and>
      (\<forall>n\<in>fst ` set ?d1 \<union> fst ` set ?d2. \<not> isArrayIndex n \<and> n \<noteq> ''__proto__'')"
    using a b by simp
  have ne: "map fst ?d1 \<noteq> map fst ?d2"
    by simp
  have neq: "queriesKey ?d1 \<noteq> queriesKey ?d2"
    using queriesKey_from_derived_keys [of ?d1 ?d2] wf ne by blast
  let ?m = "(''messages'', FunctionReference ''messages:list'', JObj [(''channelId'', JNum 1)])"
  let ?p = "(''__proto__'', FunctionReference ''channels:get'', JObj [(''id'', JNum 1)])"
  have f1: "filter (\<lambda>q. fst q \<noteq> ''__proto__'') [?p, ?m] = [?m]"
    and f2: "filter (\<lambda>q. fst q \<noteq> ''__proto__'') [?m, ?p] = [?m]"
    by simp_all
  have "queriesKey [?p, ?m] = queriesKey [?m]"
    using queriesKey_from_derived_keys [of "[?p, ?m]" "[]"] unfolding f1 by simp
  moreover have "queriesKey [?m, ?p] = queriesKey [?m]"
    using queriesKey_from_derived_keys [of "[?m, ?p]" "[]"] unfolding f2 by simp
  ultimately have proto: "queriesKey [?p, ?m] = queriesKey [?m, ?p]"
    by simp
  from a b p d dk eqk neq proto show ?thesis
    by blast
qed

text \<open>
  C8 as stated fails: the key is not a serialisation of the declaration itself. Two
  declarations that pass the same arguments with their properties in a different order
  serialise differently, and have the same composite key.
\<close>

theorem queriesKey_not_direct_serialization:
  "queriesKey [(''numbers'', FunctionReference ''myFunctions:listNumbers'',
                JObj [(''tab'', JStr ''a''), (''count'', JNum 10)])] =
   queriesKey [(''numbers'', FunctionReference ''myFunctions:listNumbers'',
                JObj [(''count'', JNum 10), (''tab'', JStr ''a'')])] \<and>
   spec_serializeDeclaration [(''numbers'', FunctionReference ''myFunctions:listNumbers'',
                JObj [(''tab'', JStr ''a''), (''count'', JNum 10)])] \<noteq>
   spec_serializeDeclaration [(''numbers'', FunctionReference ''myFunctions:listNumbers'',
                JObj [(''count'', JNum 10), (''tab'', JStr ''a'')])]"
proof -
  have "same_value (JObj [(''tab'', JStr ''a''), (''count'', JNum 10)])
      (JObj [(''count'', JNum 10), (''tab'', JStr ''a'')])"
    by (rule same_obj) (auto intro: same_value.intros)
  then have "createQueryKey (FunctionReference ''myFunctions:listNumbers'')
        (JObj [(''tab'', JStr ''a''), (''count'', JNum 10)]) =
      createQueryKey (FunctionReference ''myFunctions:listNumbers'')
        (JObj [(''count'', JNum 10), (''tab'', JStr ''a'')])"
    by (simp add: createQueryKey_eq_iff convexToJson_same)
  then have 1: "queriesKey [(''numbers'', FunctionReference ''myFunctions:listNumbers'',
                JObj [(''tab'', JStr ''a''), (''count'', JNum 10)])] =
      queriesKey [(''numbers'', FunctionReference ''myFunctions:listNumbers'',
                JObj [(''count'', JNum 10), (''tab'', JStr ''a'')])]"
    by (simp add: queriesKey_def)
  have 2: "spec_serializeDeclaration [(''numbers'', FunctionReference ''myFunctions:listNumbers'',
                JObj [(''tab'', JStr ''a''), (''count'', JNum 10)])] \<noteq>
      spec_serializeDeclaration [(''numbers'', FunctionReference ''myFunctions:listNumbers'',
                JObj [(''count'', JNum 10), (''tab'', JStr ''a'')])]"
    by (simp add: spec_serializeDeclaration_def JSON_stringify_inj del: JSON_stringify.simps)
  from 1 2 show ?thesis
    by blast
qed

section \<open>One evaluation of each hook\<close>

lemmas hook_defs =
  FEATURE_FLAG_USE_QUERY_SWR_def useQuery_def useQueries_def usePaginatedQuery_def
  useEffect_def store_get_def store_set_def

text \<open>The value an evaluation returns, and the context it leaves.\<close>

lemma useQuerySwr_returned:
  "fst (useQuerySwr name args c) =
     (if subscribe (convex c) name args = VUndefined
      then nullish (js_get (cacheAtom c) (createQueryKey name (JArr args))) VUndefined
      else subscribe (convex c) name args)"
  by (simp add: useQuerySwr_def useQuerySwr_flag_def hook_defs Let_def)

lemma useQuerySwr_ctx:
  "snd (useQuerySwr name args c) =
     (let result = subscribe (convex c) name args;
          key = createQueryKey name (JArr args);
          c' = c\<lparr>lastDep := Some result\<rparr>
      in if result \<noteq> VUndefined \<and> effect_runs c result
         then store_set (js_set (cacheAtom c) key result) c' else c')"
  by (simp add: useQuerySwr_def useQuerySwr_flag_def hook_defs Let_def)

lemma useQueriesSwr_returned:
  "fst (useQueriesSwr queries c) =
     (let result = subscribeMany (convex c) queries
      in if queriesLoading result
         then nullish (js_get (cacheAtom c) (queriesKey queries)) result
         else result)"
  by (simp add: useQueriesSwr_def useQueriesSwr_flag_def hook_defs Let_def)

lemma useQueriesSwr_ctx:
  "snd (useQueriesSwr queries c) =
     (let result = subscribeMany (convex c) queries;
          key = queriesKey queries;
          c' = c\<lparr>lastDep := Some result\<rparr>
      in if \<not> queriesLoading result \<and> effect_runs c result
         then store_set (js_set (cacheAtom c) key result) c' else c')"
  by (simp add: useQueriesSwr_def useQueriesSwr_flag_def hook_defs Let_def)

lemma usePaginatedQuerySwr_returned:
  "fst (usePaginatedQuerySwr name args c) =
     (let result = subscribePaginated (convex c) name args;
          key = createQueryKey name (JArr args);
          finalResult =
            (if js_prop result ''status'' = VStr ''LoadingFirstPage''
             then nullish (js_get (cacheAtom c) key) result else result)
      in VObj (js_set (js_spread finalResult) ''loadMore''
           (VLoadMore key (js_prop result ''loadMore''))))"
  by (simp add: usePaginatedQuerySwr_def usePaginatedQuerySwr_flag_def hook_defs Let_def)

lemma usePaginatedQuerySwr_ctx:
  "snd (usePaginatedQuerySwr name args c) =
     (let result = subscribePaginated (convex c) name args;
          status = js_prop result ''status'';
          key = createQueryKey name (JArr args);
          c' = c\<lparr>lastDep := Some status\<rparr>
      in if status \<noteq> VStr ''LoadingMore'' \<and> status \<noteq> VStr ''LoadingFirstPage'' \<and>
            effect_runs c status
         then store_set (js_set (cacheAtom c) key result) c' else c')"
  by (simp add: usePaginatedQuerySwr_def usePaginatedQuerySwr_flag_def hook_defs Let_def)

lemmas key_eval = createQueryKey_def show_int_def show_nat.simps QuoteJSONString_def escape_char_def
  js_set_def js_assign_def isArrayIndex_def dec_value_def digit_char_def queriesKey_def

lemmas scene_defs = first_evaluation_def delivering_def

lemma js_call_loadMore:
  "js_call (VLoadMore key (VNative f)) n c =
     c\<lparr>cacheAtom := js_delete (cacheAtom c) key,
       events := events c @ [StoreSet (js_delete (cacheAtom c) key), Invoke f n]\<rparr>"
  by (simp add: store_set_def store_get_def Let_def)

lemma useQuerySwr_cache:
  "cacheAtom (snd (useQuerySwr name args c)) = cacheAtom c \<or>
   cacheAtom (snd (useQuerySwr name args c)) =
     js_set (cacheAtom c) (createQueryKey name (JArr args)) (subscribe (convex c) name args)"
  by (simp add: useQuerySwr_ctx store_set_def Let_def)

lemma useQueriesSwr_cache:
  "cacheAtom (snd (useQueriesSwr queries c)) = cacheAtom c \<or>
   cacheAtom (snd (useQueriesSwr queries c)) =
     js_set (cacheAtom c) (queriesKey queries) (subscribeMany (convex c) queries)"
  by (simp add: useQueriesSwr_ctx store_set_def Let_def)

lemma usePaginatedQuerySwr_cache:
  "cacheAtom (snd (usePaginatedQuerySwr name args c)) = cacheAtom c \<or>
   cacheAtom (snd (usePaginatedQuerySwr name args c)) =
     js_set (cacheAtom c) (createQueryKey name (JArr args)) (subscribePaginated (convex c) name args)"
  by (simp add: usePaginatedQuerySwr_ctx store_set_def Let_def)

lemma frame_step:
  "m' = m \<or> m' = js_set m key v \<Longrightarrow> k \<noteq> key \<Longrightarrow> map_of m' k = map_of m k"
  by (auto simp: map_of_js_set)

lemma queriesLoading_object:
  "queriesLoading (VObj rs) \<longleftrightarrow> VUndefined \<in> snd ` set rs"
  by (auto simp: queriesLoading_def nullish_def Object_values_def list_ex_iff)

lemma nullish_object: "nullish (VObj m) b = VObj m"
  by (simp add: nullish_def)

lemma js_get_absent: "map_of ps k = None \<Longrightarrow> js_get ps k = VUndefined"
  by (simp add: js_get_def)

lemma js_prop_returned:
  "k \<noteq> ''loadMore'' \<Longrightarrow>
   js_prop (VObj (js_set (js_spread (VObj ps)) ''loadMore'' v)) k = js_prop (VObj ps) k"
  by (simp add: js_get_js_set)

lemma status_object:
  "js_prop v ''status'' = VStr s \<Longrightarrow> \<exists>ps. v = VObj ps"
  by (cases v) simp_all

section \<open>Staleness substitution and freshness (single query)\<close>

text \<open>
  C1, evaluated on the code. The hook stores every result that is not \<^verbatim>\<open>undefined\<close>, so
  it stores \<^verbatim>\<open>null\<close>; but it reads the cache with \<^verbatim>\<open>stale ?? result\<close>, which passes a
  cached \<^verbatim>\<open>null\<close> over. An instance whose query resolved to \<^verbatim>\<open>null\<close> has \<^verbatim>\<open>null\<close>
  in the cache under its key, and at its next evaluation, with the live result loading,
  it returns \<^verbatim>\<open>undefined\<close> and not the cached \<^verbatim>\<open>null\<close>.
\<close>

theorem useQuerySwr_null_entry:
  "js_get (cacheAtom (snd (useQuerySwr (FunctionReference ''users:get'') []
       (first_evaluation (delivering VNull) []))))
     (createQueryKey (FunctionReference ''users:get'') (JArr [])) = VNull \<and>
   fst (useQuerySwr (FunctionReference ''users:get'') []
     ((snd (useQuerySwr (FunctionReference ''users:get'') []
         (first_evaluation (delivering VNull) [])))
      \<lparr>convex := delivering VUndefined\<rparr>)) = VUndefined"
  by (simp add: useQuerySwr_returned useQuerySwr_ctx scene_defs effect_runs_def store_set_def
      js_get_js_set nullish_def Let_def)

text \<open>
  Staleness substitution where the cache has no \<^verbatim>\<open>null\<close>: when the live result of
  \<^verbatim>\<open>useQuerySwr\<close> is \<^verbatim>\<open>undefined\<close> and the cache does not hold \<^verbatim>\<open>null\<close> under the key,
  the hook returns what a read of the cache under the key gives (the cached result, falsy
  ones such as \<open>0\<close> and \<^verbatim>\<open>false\<close> included, or \<^verbatim>\<open>undefined\<close> when there is no entry), and
  the evaluation writes nothing.
\<close>

theorem useQuerySwr_stale:
  "subscribe (convex c) name args = VUndefined \<Longrightarrow>
   js_get (cacheAtom c) (createQueryKey name (JArr args)) \<noteq> VNull \<Longrightarrow>
   fst (useQuerySwr name args c) = js_get (cacheAtom c) (createQueryKey name (JArr args)) \<and>
   cacheAtom (snd (useQuerySwr name args c)) = cacheAtom c \<and>
   events (snd (useQuerySwr name args c)) = events c"
  by (simp add: useQuerySwr_returned useQuerySwr_ctx nullish_def Let_def)

theorem useQuerySwr_stale_witness:
  "fst (useQuerySwr (FunctionReference ''counter:get'') []
     (first_evaluation (delivering VUndefined)
        [(createQueryKey (FunctionReference ''counter:get'') (JArr []), VNum 0)])) = VNum 0 \<and>
   fst (useQuerySwr (FunctionReference ''counter:get'') []
     (first_evaluation (delivering VUndefined)
        [(createQueryKey (FunctionReference ''counter:get'') (JArr []), VBool False)])) = VBool False \<and>
   fst (useQuerySwr (FunctionReference ''counter:get'') []
     (first_evaluation (delivering VUndefined) [])) = VUndefined"
proof -
  let ?f = "FunctionReference ''counter:get''"
  let ?key = "createQueryKey ?f (JArr [])"
  have r: "fst (useQuerySwr ?f [] (first_evaluation (delivering VUndefined) m)) = js_get m ?key"
    if "js_get m ?key \<noteq> VNull" for m
  proof -
    let ?ctx = "first_evaluation (delivering VUndefined) m"
    have a: "subscribe (convex ?ctx) ?f [] = VUndefined"
      by (simp add: scene_defs)
    have b: "js_get (cacheAtom ?ctx) ?key \<noteq> VNull"
      using that by (simp add: scene_defs)
    have "fst (useQuerySwr ?f [] ?ctx) = js_get (cacheAtom ?ctx) ?key"
      using useQuerySwr_stale [OF a b] by blast
    then show ?thesis
      by (simp add: scene_defs)
  qed
  have 1: "js_get [(?key, VNum 0)] ?key = VNum 0"
    and 2: "js_get [(?key, VBool False)] ?key = VBool False"
    and 3: "js_get [] ?key = VUndefined"
    by (simp_all add: js_get_def)
  from r [of "[(?key, VNum 0)]"] r [of "[(?key, VBool False)]"] r [of "[]"] 1 2 3 show ?thesis
    by simp
qed

text \<open>
  C3 (freshness precedence). Whenever the live result of \<^verbatim>\<open>useQuerySwr\<close> is not
  \<^verbatim>\<open>undefined\<close>, the hook returns that live result, whatever the cache holds under the
  key.
\<close>

theorem useQuerySwr_fresh:
  "subscribe (convex c) name args \<noteq> VUndefined \<Longrightarrow>
   fst (useQuerySwr name args c) = subscribe (convex c) name args"
  by (simp add: useQuerySwr_returned)

theorem useQuerySwr_fresh_witness:
  "js_get (cacheAtom (first_evaluation (delivering (VNum 2))
       [(createQueryKey (FunctionReference ''messages:list'') (JArr []), VNum 1)]))
     (createQueryKey (FunctionReference ''messages:list'') (JArr [])) = VNum 1 \<and>
   fst (useQuerySwr (FunctionReference ''messages:list'') []
     (first_evaluation (delivering (VNum 2))
       [(createQueryKey (FunctionReference ''messages:list'') (JArr []), VNum 1)])) = VNum 2"
  using useQuerySwr_fresh [of "first_evaluation (delivering (VNum 2))
       [(createQueryKey (FunctionReference ''messages:list'') (JArr []), VNum 1)]"
       "FunctionReference ''messages:list''" "[]"]
  by (simp add: scene_defs js_get_def)

section \<open>Writing the cache\<close>




section \<open>The multi-query hook\<close>

text \<open>
  A composite key is the serialisation of an object, the key of a single or paginated
  query that of an array: the other hooks and the \<^verbatim>\<open>loadMore\<close> closures leave the entry
  under a composite key alone, and so does a batch with another composite key.
\<close>

lemma paginated_key_not_queries_key:
  "createQueryKey fn (JArr as) \<noteq> queriesKey queries"
  by (simp add: createQueryKey_def queriesKey_def JSON_stringify_inj Let_def del: JSON_stringify.simps)

lemma batch_entry_kept:
  "map_of (cacheAtom (snd (useQuerySwr name args c))) (queriesKey queries) =
     map_of (cacheAtom c) (queriesKey queries)"
  "map_of (cacheAtom (snd (usePaginatedQuerySwr name args c))) (queriesKey queries) =
     map_of (cacheAtom c) (queriesKey queries)"
  "map_of (cacheAtom (js_call (VLoadMore (createQueryKey name (JArr args)) (VNative f)) n c))
       (queriesKey queries) =
     map_of (cacheAtom c) (queriesKey queries)"
  "queriesKey other \<noteq> queriesKey queries \<Longrightarrow>
   map_of (cacheAtom (snd (useQueriesSwr other c))) (queriesKey queries) =
     map_of (cacheAtom c) (queriesKey queries)"
proof -
  have ne: "queriesKey queries \<noteq> createQueryKey name (JArr args)"
    using paginated_key_not_queries_key [of name args queries] by simp
  show "map_of (cacheAtom (snd (useQuerySwr name args c))) (queriesKey queries) =
      map_of (cacheAtom c) (queriesKey queries)"
    by (rule frame_step [OF useQuerySwr_cache ne])
  show "map_of (cacheAtom (snd (usePaginatedQuerySwr name args c))) (queriesKey queries) =
      map_of (cacheAtom c) (queriesKey queries)"
    by (rule frame_step [OF usePaginatedQuerySwr_cache ne])
  show "map_of (cacheAtom (js_call (VLoadMore (createQueryKey name (JArr args)) (VNative f)) n c))
        (queriesKey queries) =
      map_of (cacheAtom c) (queriesKey queries)"
    unfolding js_call_loadMore using ne by (simp add: map_of_js_delete)
  show "map_of (cacheAtom (snd (useQueriesSwr other c))) (queriesKey queries) =
      map_of (cacheAtom c) (queriesKey queries)"
    if "queriesKey other \<noteq> queriesKey queries"
    using that by (intro frame_step [OF useQueriesSwr_cache]) simp
qed

text \<open>
  Between two evaluations of an instance, the atom holds under the instance's composite
  key the live object of the last evaluation, if that object had every sub-result.
\<close>

lemma batch_instance_entry:
  "batch_instance prev c \<Longrightarrow>
   \<forall>queries. prev = Some queries \<longrightarrow>
     (\<exists>d. lastDep c = Some d \<and>
        (\<not> queriesLoading d \<longrightarrow> js_get (cacheAtom c) (queriesKey queries) = d))"
proof (induction rule: batch_instance.induct)
  case (batch_mount c)
  show ?case by simp
next
  case (batch_evaluated prev c queries rs)
  let ?post = "snd (useQueriesSwr queries c)"
  note live = \<open>subscribeMany (convex c) queries = VObj rs\<close>
  have dep: "lastDep ?post = Some (VObj rs)"
    by (simp add: useQueriesSwr_ctx live store_set_def Let_def)
  have "js_get (cacheAtom ?post) (queriesKey queries) = VObj rs" if ready: "\<not> queriesLoading (VObj rs)"
  proof (cases "effect_runs c (VObj rs)")
    case True
    with ready show ?thesis
      by (simp add: useQueriesSwr_ctx live store_set_def js_get_js_set Let_def)
  next
    case False
    then obtain d where d: "lastDep c = Some d" "Object_is (sameRef c) d (VObj rs)"
      by (auto simp: effect_runs_def split: option.splits)
    then have same: "d = VObj rs" "sameRef c"
      by (auto simp: Object_is_def)
    with \<open>sameRef c \<longrightarrow> prev = Some queries\<close> have "prev = Some queries"
      by simp
    with batch_evaluated.IH d(1) same(1) ready
    have "js_get (cacheAtom c) (queriesKey queries) = VObj rs"
      by auto
    moreover from False have "cacheAtom ?post = cacheAtom c"
      by (simp add: useQueriesSwr_ctx live Let_def)
    ultimately show ?thesis
      by simp
  qed
  with dep show ?case
    by simp
next
  case (batch_between queries c c')
  then show ?case
    by (auto simp: js_get_def)
qed

text \<open>
  C4 (multi-query batch loading). For every evaluation of \<^verbatim>\<open>useQueriesSwr\<close> by a mounted
  instance, with the live result the object \<open>rs\<close>: \<^verbatim>\<open>isLoading\<close> is true exactly when some
  named sub-result is \<^verbatim>\<open>undefined\<close>; when it is true the hook returns the object cached
  under the composite key if there is one, and the live object if the cache has nothing
  under the key; when it is false the hook returns the live object, and after the
  evaluation the atom holds the whole live object under the composite key. The effect
  does the write: when it runs (first evaluation, or a live object that is not the one
  of the previous evaluation) it sets the atom to a copy of the cache with the whole
  live object as the one entry under the composite key; when it does not run, the atom
  is left as it is, and the live object is the one that the previous evaluation left
  under the key.
\<close>

theorem useQueriesSwr_batch:
  "batch_instance prev c \<Longrightarrow> sameRef c \<longrightarrow> prev = Some queries \<Longrightarrow>
   subscribeMany (convex c) queries = VObj rs \<Longrightarrow>
   (queriesLoading (VObj rs) \<longleftrightarrow> VUndefined \<in> snd ` set rs) \<and>
   (queriesLoading (VObj rs) \<longrightarrow> js_get (cacheAtom c) (queriesKey queries) = VObj m \<longrightarrow>
      fst (useQueriesSwr queries c) = VObj m) \<and>
   (queriesLoading (VObj rs) \<longrightarrow> map_of (cacheAtom c) (queriesKey queries) = None \<longrightarrow>
      fst (useQueriesSwr queries c) = VObj rs) \<and>
   (\<not> queriesLoading (VObj rs) \<longrightarrow>
      fst (useQueriesSwr queries c) = VObj rs \<and>
      js_get (cacheAtom (snd (useQueriesSwr queries c))) (queriesKey queries) = VObj rs) \<and>
   (\<not> queriesLoading (VObj rs) \<longrightarrow> effect_runs c (VObj rs) \<longrightarrow>
      cacheAtom (snd (useQueriesSwr queries c)) = js_set (cacheAtom c) (queriesKey queries) (VObj rs) \<and>
      events (snd (useQueriesSwr queries c)) =
        events c @ [StoreSet (js_set (cacheAtom c) (queriesKey queries) (VObj rs))]) \<and>
   (queriesLoading (VObj rs) \<or> \<not> effect_runs c (VObj rs) \<longrightarrow>
      cacheAtom (snd (useQueriesSwr queries c)) = cacheAtom c \<and>
      events (snd (useQueriesSwr queries c)) = events c)"
proof -
  assume inst: "batch_instance prev c" and same: "sameRef c \<longrightarrow> prev = Some queries"
    and live: "subscribeMany (convex c) queries = VObj rs"
  have 1: "queriesLoading (VObj rs) \<longleftrightarrow> VUndefined \<in> snd ` set rs"
    by (rule queriesLoading_object)
  have 2: "queriesLoading (VObj rs) \<longrightarrow> js_get (cacheAtom c) (queriesKey queries) = VObj m \<longrightarrow>
      fst (useQueriesSwr queries c) = VObj m"
    by (simp add: useQueriesSwr_returned live nullish_object)
  have 3: "queriesLoading (VObj rs) \<longrightarrow> map_of (cacheAtom c) (queriesKey queries) = None \<longrightarrow>
      fst (useQueriesSwr queries c) = VObj rs"
    by (simp add: useQueriesSwr_returned live js_get_absent nullish_def)
  have after: "batch_instance (Some queries) (snd (useQueriesSwr queries c))"
    by (rule batch_evaluated [OF inst same live])
  have dep: "lastDep (snd (useQueriesSwr queries c)) = Some (VObj rs)"
    by (simp add: useQueriesSwr_ctx live store_set_def Let_def)
  from batch_instance_entry [OF after] dep
  have held: "\<not> queriesLoading (VObj rs) \<longrightarrow>
      js_get (cacheAtom (snd (useQueriesSwr queries c))) (queriesKey queries) = VObj rs"
    by auto
  have "\<not> queriesLoading (VObj rs) \<longrightarrow> fst (useQueriesSwr queries c) = VObj rs"
    by (simp add: useQueriesSwr_returned live)
  with held have 4: "\<not> queriesLoading (VObj rs) \<longrightarrow>
      fst (useQueriesSwr queries c) = VObj rs \<and>
      js_get (cacheAtom (snd (useQueriesSwr queries c))) (queriesKey queries) = VObj rs"
    by simp
  have 5: "\<not> queriesLoading (VObj rs) \<longrightarrow> effect_runs c (VObj rs) \<longrightarrow>
      cacheAtom (snd (useQueriesSwr queries c)) = js_set (cacheAtom c) (queriesKey queries) (VObj rs) \<and>
      events (snd (useQueriesSwr queries c)) =
        events c @ [StoreSet (js_set (cacheAtom c) (queriesKey queries) (VObj rs))]"
    by (simp add: useQueriesSwr_ctx live store_set_def Let_def)
  have 6: "queriesLoading (VObj rs) \<or> \<not> effect_runs c (VObj rs) \<longrightarrow>
      cacheAtom (snd (useQueriesSwr queries c)) = cacheAtom c \<and>
      events (snd (useQueriesSwr queries c)) = events c"
    by (auto simp add: useQueriesSwr_ctx live Let_def)
  from 1 2 3 4 5 6 show ?thesis
    by blast
qed

theorem useQueriesSwr_batch_witness:
  "fst (useQueriesSwr [(''a'', FunctionReference ''f'', JObj []), (''b'', FunctionReference ''g'', JObj [])]
     (first_evaluation (delivering (VObj [(''a'', VNum 1), (''b'', VUndefined)]))
        [(queriesKey [(''a'', FunctionReference ''f'', JObj []), (''b'', FunctionReference ''g'', JObj [])],
          VObj [(''a'', VNum 0), (''b'', VNum 2)])])) =
     VObj [(''a'', VNum 0), (''b'', VNum 2)] \<and>
   fst (useQueriesSwr [(''a'', FunctionReference ''f'', JObj []), (''b'', FunctionReference ''g'', JObj [])]
     (first_evaluation (delivering (VObj [(''a'', VNum 1), (''b'', VUndefined)])) [])) =
     VObj [(''a'', VNum 1), (''b'', VUndefined)] \<and>
   fst (useQueriesSwr [(''a'', FunctionReference ''f'', JObj []), (''b'', FunctionReference ''g'', JObj [])]
     (first_evaluation (delivering (VObj [(''a'', VNum 1), (''b'', VNum 2)])) [])) =
     VObj [(''a'', VNum 1), (''b'', VNum 2)] \<and>
   js_get (cacheAtom (snd (useQueriesSwr
       [(''a'', FunctionReference ''f'', JObj []), (''b'', FunctionReference ''g'', JObj [])]
       (first_evaluation (delivering (VObj [(''a'', VNum 1), (''b'', VNum 2)])) []))))
     (queriesKey [(''a'', FunctionReference ''f'', JObj []), (''b'', FunctionReference ''g'', JObj [])]) =
     VObj [(''a'', VNum 1), (''b'', VNum 2)] \<and>
   \<not> effect_runs
     ((snd (useQueriesSwr
         [(''a'', FunctionReference ''f'', JObj []), (''b'', FunctionReference ''g'', JObj [])]
         (first_evaluation (delivering (VObj [(''a'', VNum 1), (''b'', VNum 2)])) [])))
      \<lparr>cacheAtom := cacheAtom (snd (useQuerySwr (FunctionReference ''h'') []
          (first_evaluation (delivering (VNum 7))
            (cacheAtom (snd (useQueriesSwr
              [(''a'', FunctionReference ''f'', JObj []), (''b'', FunctionReference ''g'', JObj [])]
              (first_evaluation (delivering (VObj [(''a'', VNum 1), (''b'', VNum 2)])) []))))))),
        sameRef := True\<rparr>)
     (VObj [(''a'', VNum 1), (''b'', VNum 2)]) \<and>
   js_get (cacheAtom (snd (useQueriesSwr
       [(''a'', FunctionReference ''f'', JObj []), (''b'', FunctionReference ''g'', JObj [])]
       ((snd (useQueriesSwr
           [(''a'', FunctionReference ''f'', JObj []), (''b'', FunctionReference ''g'', JObj [])]
           (first_evaluation (delivering (VObj [(''a'', VNum 1), (''b'', VNum 2)])) [])))
        \<lparr>cacheAtom := cacheAtom (snd (useQuerySwr (FunctionReference ''h'') []
            (first_evaluation (delivering (VNum 7))
              (cacheAtom (snd (useQueriesSwr
                [(''a'', FunctionReference ''f'', JObj []), (''b'', FunctionReference ''g'', JObj [])]
                (first_evaluation (delivering (VObj [(''a'', VNum 1), (''b'', VNum 2)])) []))))))),
          sameRef := True\<rparr>))))
     (queriesKey [(''a'', FunctionReference ''f'', JObj []), (''b'', FunctionReference ''g'', JObj [])]) =
     VObj [(''a'', VNum 1), (''b'', VNum 2)]"
proof -
  let ?qs = "[(''a'', FunctionReference ''f'', JObj []), (''b'', FunctionReference ''g'', JObj [])]"
  let ?part = "[(''a'', VNum 1), (''b'', VUndefined)]"
  let ?full = "[(''a'', VNum 1), (''b'', VNum 2)]"
  let ?old = "[(''a'', VNum 0), (''b'', VNum 2)]"
  let ?cached = "first_evaluation (delivering (VObj ?part)) [(queriesKey ?qs, VObj ?old)]"
  let ?empty = "first_evaluation (delivering (VObj ?part)) []"
  let ?mount = "first_evaluation (delivering (VObj ?full)) []"
  let ?settled = "snd (useQueriesSwr ?qs ?mount)"
  let ?other = "snd (useQuerySwr (FunctionReference ''h'') []
      (first_evaluation (delivering (VNum 7)) (cacheAtom ?settled)))"
  let ?again = "?settled\<lparr>cacheAtom := cacheAtom ?other, sameRef := True\<rparr>"
  have l1: "subscribeMany (convex ?cached) ?qs = VObj ?part"
    and l2: "subscribeMany (convex ?empty) ?qs = VObj ?part"
    and l3: "subscribeMany (convex ?mount) ?qs = VObj ?full"
    by (simp_all add: scene_defs)
  have i1: "batch_instance None ?cached" and i2: "batch_instance None ?empty"
    and i3: "batch_instance None ?mount"
    by (rule batch_mount, simp add: scene_defs)+
  have s1: "sameRef ?cached \<longrightarrow> None = Some ?qs" and s2: "sameRef ?empty \<longrightarrow> None = Some ?qs"
    and s3: "sameRef ?mount \<longrightarrow> None = Some ?qs"
    by (simp_all add: scene_defs)
  have loading: "queriesLoading (VObj ?part)"
    using useQueriesSwr_batch [OF i2 s2 l2] by simp
  have ready: "\<not> queriesLoading (VObj ?full)"
    using useQueriesSwr_batch [OF i3 s3 l3] by simp
  have cached: "js_get (cacheAtom ?cached) (queriesKey ?qs) = VObj ?old"
    by (simp add: scene_defs js_get_def)
  have absent: "map_of (cacheAtom ?empty) (queriesKey ?qs) = None"
    by (simp add: scene_defs)
  have r1: "fst (useQueriesSwr ?qs ?cached) = VObj ?old"
    using useQueriesSwr_batch [OF i1 s1 l1, of ?old] loading cached by blast
  have r2: "fst (useQueriesSwr ?qs ?empty) = VObj ?part"
    using useQueriesSwr_batch [OF i2 s2 l2] loading absent by blast
  have r3: "fst (useQueriesSwr ?qs ?mount) = VObj ?full"
    using useQueriesSwr_batch [OF i3 s3 l3] ready by blast
  have r4: "js_get (cacheAtom ?settled) (queriesKey ?qs) = VObj ?full"
    using useQueriesSwr_batch [OF i3 s3 l3] ready by blast
  have i4: "batch_instance (Some ?qs) ?settled"
    by (rule batch_evaluated [OF i3 s3 l3])
  have kept: "map_of (cacheAtom ?again) (queriesKey ?qs) = map_of (cacheAtom ?settled) (queriesKey ?qs)"
    by (simp add: batch_entry_kept(1) first_evaluation_def)
  have i5: "batch_instance (Some ?qs) ?again"
    by (rule batch_between [OF i4 _ kept]) simp
  have s5: "sameRef ?again \<longrightarrow> Some ?qs = Some ?qs"
    by simp
  have settled: "?settled = (first_evaluation (delivering (VObj ?full)) [(queriesKey ?qs, VObj ?full)])
      \<lparr>events := [StoreSet [(queriesKey ?qs, VObj ?full)]], lastDep := Some (VObj ?full)\<rparr>"
    using ready by (simp add: useQueriesSwr_ctx scene_defs effect_runs_def store_set_def Let_def js_set_def)
  have l5: "subscribeMany (convex ?again) ?qs = VObj ?full"
    unfolding settled by (simp add: scene_defs)
  have norun: "\<not> effect_runs ?again (VObj ?full)"
    unfolding settled by (simp add: scene_defs effect_runs_def Object_is_def)
  have r5: "js_get (cacheAtom (snd (useQueriesSwr ?qs ?again))) (queriesKey ?qs) = VObj ?full"
    using useQueriesSwr_batch [OF i5 s5 l5] ready by blast
  from r1 r2 r3 r4 norun r5 show ?thesis
    by blast
qed

section \<open>Pagination\<close>

text \<open>
  C5 (pagination invalidation). The \<^verbatim>\<open>loadMore\<close> that \<^verbatim>\<open>usePaginatedQuerySwr\<close> returns
  is the closure over the current key and the live result's \<^verbatim>\<open>loadMore\<close>. Called in any
  context, it first sets the atom to a copy of the cache without the entry of that key
  and then calls the live \<^verbatim>\<open>loadMore\<close> with the same count. An evaluation for the same
  function and arguments that finds the cache as the call left it, with the live status
  \<^verbatim>\<open>LoadingFirstPage\<close>, returns the live result with only \<^verbatim>\<open>loadMore\<close> replaced.
\<close>

theorem loadMore_invalidates:
  "js_prop (subscribePaginated (convex c) name args) ''loadMore'' = VNative f \<Longrightarrow>
   js_prop (fst (usePaginatedQuerySwr name args c)) ''loadMore'' =
     VLoadMore (createQueryKey name (JArr args)) (VNative f) \<and>
   js_call (js_prop (fst (usePaginatedQuerySwr name args c)) ''loadMore'') numItems d =
     d\<lparr>cacheAtom := js_delete (cacheAtom d) (createQueryKey name (JArr args)),
       events := events d @
         [StoreSet (js_delete (cacheAtom d) (createQueryKey name (JArr args))), Invoke f numItems]\<rparr> \<and>
   (cacheAtom e =
      cacheAtom (js_call (js_prop (fst (usePaginatedQuerySwr name args c)) ''loadMore'') numItems d) \<longrightarrow>
    js_prop (subscribePaginated (convex e) name args) ''status'' = VStr ''LoadingFirstPage'' \<longrightarrow>
      fst (usePaginatedQuerySwr name args e) =
        VObj (js_set (js_spread (subscribePaginated (convex e) name args)) ''loadMore''
          (VLoadMore (createQueryKey name (JArr args))
            (js_prop (subscribePaginated (convex e) name args) ''loadMore''))) \<and>
      (\<forall>k. k \<noteq> ''loadMore'' \<longrightarrow>
         js_prop (fst (usePaginatedQuerySwr name args e)) k =
         js_prop (subscribePaginated (convex e) name args) k))"
proof -
  let ?key = "createQueryKey name (JArr args)"
  let ?lm = "js_prop (fst (usePaginatedQuerySwr name args c)) ''loadMore''"
  assume orig: "js_prop (subscribePaginated (convex c) name args) ''loadMore'' = VNative f"
  have 1: "?lm = VLoadMore ?key (VNative f)"
    by (simp add: usePaginatedQuerySwr_returned Let_def js_get_js_set orig)
  have 2: "js_call ?lm numItems d =
     d\<lparr>cacheAtom := js_delete (cacheAtom d) ?key,
       events := events d @ [StoreSet (js_delete (cacheAtom d) ?key), Invoke f numItems]\<rparr>"
    unfolding 1 by (rule js_call_loadMore)
  have 3: "fst (usePaginatedQuerySwr name args e) =
        VObj (js_set (js_spread (subscribePaginated (convex e) name args)) ''loadMore''
          (VLoadMore ?key (js_prop (subscribePaginated (convex e) name args) ''loadMore''))) \<and>
      (\<forall>k. k \<noteq> ''loadMore'' \<longrightarrow>
         js_prop (fst (usePaginatedQuerySwr name args e)) k =
         js_prop (subscribePaginated (convex e) name args) k)"
    if same: "cacheAtom e = cacheAtom (js_call ?lm numItems d)"
      and first: "js_prop (subscribePaginated (convex e) name args) ''status'' = VStr ''LoadingFirstPage''"
  proof -
    from same have "cacheAtom e = js_delete (cacheAtom d) ?key"
      unfolding 2 by simp
    then have stale: "js_get (cacheAtom e) ?key = VUndefined"
      by (simp add: js_get_js_delete)
    from status_object [OF first] obtain ps where ps: "subscribePaginated (convex e) name args = VObj ps"
      by blast
    have ret: "fst (usePaginatedQuerySwr name args e) =
        VObj (js_set (js_spread (subscribePaginated (convex e) name args)) ''loadMore''
          (VLoadMore ?key (js_prop (subscribePaginated (convex e) name args) ''loadMore'')))"
      by (simp add: usePaginatedQuerySwr_returned Let_def stale nullish_def)
    show ?thesis
      unfolding ret unfolding ps using js_prop_returned by blast
  qed
  from 1 2 3 show ?thesis
    by blast
qed

theorem loadMore_invalidates_witness:
  "js_prop (subscribePaginated (convex (first_evaluation (delivering
        (VObj [(''results'', VArr [VNum 1, VNum 2]), (''status'', VStr ''CanLoadMore''),
               (''isLoading'', VBool False), (''loadMore'', VNative 0)])) []))
      (FunctionReference ''messages:page'') [JObj [], JObj [(''initialNumItems'', JNum 2)]]) ''loadMore'' =
     VNative 0 \<and>
   js_get (cacheAtom (snd (usePaginatedQuerySwr (FunctionReference ''messages:page'')
        [JObj [], JObj [(''initialNumItems'', JNum 2)]]
        (first_evaluation (delivering
          (VObj [(''results'', VArr [VNum 1, VNum 2]), (''status'', VStr ''CanLoadMore''),
                 (''isLoading'', VBool False), (''loadMore'', VNative 0)])) []))))
      (createQueryKey (FunctionReference ''messages:page'')
        (JArr [JObj [], JObj [(''initialNumItems'', JNum 2)]])) =
     VObj [(''results'', VArr [VNum 1, VNum 2]), (''status'', VStr ''CanLoadMore''),
           (''isLoading'', VBool False), (''loadMore'', VNative 0)] \<and>
   js_prop (fst (usePaginatedQuerySwr (FunctionReference ''messages:page'')
        [JObj [], JObj [(''initialNumItems'', JNum 2)]]
        ((js_call (js_prop (fst (usePaginatedQuerySwr (FunctionReference ''messages:page'')
              [JObj [], JObj [(''initialNumItems'', JNum 2)]]
              (first_evaluation (delivering
                (VObj [(''results'', VArr [VNum 1, VNum 2]), (''status'', VStr ''CanLoadMore''),
                       (''isLoading'', VBool False), (''loadMore'', VNative 0)])) []))) ''loadMore'')
            (VNum 2)
            (snd (usePaginatedQuerySwr (FunctionReference ''messages:page'')
              [JObj [], JObj [(''initialNumItems'', JNum 2)]]
              (first_evaluation (delivering
                (VObj [(''results'', VArr [VNum 1, VNum 2]), (''status'', VStr ''CanLoadMore''),
                       (''isLoading'', VBool False), (''loadMore'', VNative 0)])) []))))
         \<lparr>convex := delivering
            (VObj [(''results'', VArr []), (''status'', VStr ''LoadingFirstPage''),
                   (''isLoading'', VBool True), (''loadMore'', VNative 1)])\<rparr>))) ''results'' =
     VArr []"
proof -
  let ?f = "FunctionReference ''messages:page''"
  let ?args = "[JObj [], JObj [(''initialNumItems'', JNum 2)]]"
  let ?page = "VObj [(''results'', VArr [VNum 1, VNum 2]), (''status'', VStr ''CanLoadMore''),
               (''isLoading'', VBool False), (''loadMore'', VNative 0)]"
  let ?loading = "VObj [(''results'', VArr []), (''status'', VStr ''LoadingFirstPage''),
                   (''isLoading'', VBool True), (''loadMore'', VNative 1)]"
  let ?c = "first_evaluation (delivering ?page) []"
  let ?d = "snd (usePaginatedQuerySwr ?f ?args ?c)"
  let ?lm = "js_prop (fst (usePaginatedQuerySwr ?f ?args ?c)) ''loadMore''"
  let ?e = "(js_call ?lm (VNum 2) ?d)\<lparr>convex := delivering ?loading\<rparr>"
  have orig: "js_prop (subscribePaginated (convex ?c) ?f ?args) ''loadMore'' = VNative 0"
    by (simp add: scene_defs js_get_def)
  have cached: "js_get (cacheAtom ?d) (createQueryKey ?f (JArr ?args)) = ?page"
    by (simp add: usePaginatedQuerySwr_ctx scene_defs effect_runs_def store_set_def Let_def
        js_get_js_set js_get_def map_of_js_set)
  have same: "cacheAtom ?e = cacheAtom (js_call ?lm (VNum 2) ?d)"
    by simp
  have live: "subscribePaginated (convex ?e) ?f ?args = ?loading"
    by (simp add: scene_defs)
  have first: "js_prop (subscribePaginated (convex ?e) ?f ?args) ''status'' = VStr ''LoadingFirstPage''"
    unfolding live by (simp add: js_get_def)
  have ne: "''results'' \<noteq> ''loadMore''"
    by simp
  note t = loadMore_invalidates [OF orig, where e = ?e and numItems = "VNum 2" and d = ?d]
  note t3 = t [THEN conjunct2, THEN conjunct2, rule_format]
  have "\<forall>k. k \<noteq> ''loadMore'' \<longrightarrow>
      js_prop (fst (usePaginatedQuerySwr ?f ?args ?e)) k =
      js_prop (subscribePaginated (convex ?e) ?f ?args) k"
    by (rule t3 [OF same first, THEN conjunct2])
  then have "js_prop (fst (usePaginatedQuerySwr ?f ?args ?e)) ''results'' =
      js_prop (subscribePaginated (convex ?e) ?f ?args) ''results''"
    using ne by simp
  also have "\<dots> = VArr []"
    unfolding live by (simp add: js_get_def)
  finally have res: "js_prop (fst (usePaginatedQuerySwr ?f ?args ?e)) ''results'' = VArr []" .
  show ?thesis
    by (rule conjI [OF orig conjI [OF cached res]])
qed

text \<open>
  The paginated hook's effect depends on the status alone. An evaluation whose live status
  is settled writes the live result under the key if the effect runs (first evaluation,
  or a status other than the one of the previous evaluation), and leaves the cache as it
  is otherwise, also when the live items have changed.
\<close>

theorem usePaginatedQuerySwr_writes:
  "js_prop (subscribePaginated (convex c) name args) ''status'' \<noteq> VStr ''LoadingMore'' \<Longrightarrow>
   js_prop (subscribePaginated (convex c) name args) ''status'' \<noteq> VStr ''LoadingFirstPage'' \<Longrightarrow>
   (effect_runs c (js_prop (subscribePaginated (convex c) name args) ''status'') \<longrightarrow>
      cacheAtom (snd (usePaginatedQuerySwr name args c)) =
        js_set (cacheAtom c) (createQueryKey name (JArr args)) (subscribePaginated (convex c) name args)) \<and>
   (\<not> effect_runs c (js_prop (subscribePaginated (convex c) name args) ''status'') \<longrightarrow>
      cacheAtom (snd (usePaginatedQuerySwr name args c)) = cacheAtom c)"
  by (simp add: usePaginatedQuerySwr_ctx store_set_def Let_def)

theorem usePaginatedQuerySwr_writes_witness:
  "js_get (cacheAtom (snd (usePaginatedQuerySwr (FunctionReference ''messages:page'')
        [JObj [], JObj [(''initialNumItems'', JNum 2)]]
        (first_evaluation (delivering
          (VObj [(''results'', VArr [VNum 1]), (''status'', VStr ''CanLoadMore''),
                 (''isLoading'', VBool False), (''loadMore'', VNative 0)])) []))))
      (createQueryKey (FunctionReference ''messages:page'')
        (JArr [JObj [], JObj [(''initialNumItems'', JNum 2)]])) =
     VObj [(''results'', VArr [VNum 1]), (''status'', VStr ''CanLoadMore''),
           (''isLoading'', VBool False), (''loadMore'', VNative 0)] \<and>
   js_get (cacheAtom (snd (usePaginatedQuerySwr (FunctionReference ''messages:page'')
        [JObj [], JObj [(''initialNumItems'', JNum 2)]]
        ((snd (usePaginatedQuerySwr (FunctionReference ''messages:page'')
            [JObj [], JObj [(''initialNumItems'', JNum 2)]]
            (first_evaluation (delivering
              (VObj [(''results'', VArr [VNum 1]), (''status'', VStr ''CanLoadMore''),
                     (''isLoading'', VBool False), (''loadMore'', VNative 0)])) [])))
         \<lparr>convex := delivering
            (VObj [(''results'', VArr [VNum 0, VNum 1]), (''status'', VStr ''CanLoadMore''),
                   (''isLoading'', VBool False), (''loadMore'', VNative 0)])\<rparr>))))
      (createQueryKey (FunctionReference ''messages:page'')
        (JArr [JObj [], JObj [(''initialNumItems'', JNum 2)]])) =
     VObj [(''results'', VArr [VNum 1]), (''status'', VStr ''CanLoadMore''),
           (''isLoading'', VBool False), (''loadMore'', VNative 0)]"
proof -
  let ?f = "FunctionReference ''messages:page''"
  let ?args = "[JObj [], JObj [(''initialNumItems'', JNum 2)]]"
  let ?key = "createQueryKey ?f (JArr ?args)"
  let ?old = "VObj [(''results'', VArr [VNum 1]), (''status'', VStr ''CanLoadMore''),
                 (''isLoading'', VBool False), (''loadMore'', VNative 0)]"
  let ?new = "VObj [(''results'', VArr [VNum 0, VNum 1]), (''status'', VStr ''CanLoadMore''),
                   (''isLoading'', VBool False), (''loadMore'', VNative 0)]"
  let ?mount = "first_evaluation (delivering ?old) []"
  let ?later = "(snd (usePaginatedQuerySwr ?f ?args ?mount))\<lparr>convex := delivering ?new\<rparr>"
  have live1: "subscribePaginated (convex ?mount) ?f ?args = ?old"
    by (simp add: scene_defs)
  have s1: "js_prop (subscribePaginated (convex ?mount) ?f ?args) ''status'' = VStr ''CanLoadMore''"
    unfolding live1 by (simp add: js_get_def)
  have run1: "effect_runs ?mount (js_prop (subscribePaginated (convex ?mount) ?f ?args) ''status'')"
    by (simp add: scene_defs effect_runs_def)
  have w1: "cacheAtom (snd (usePaginatedQuerySwr ?f ?args ?mount)) = js_set (cacheAtom ?mount) ?key ?old"
    using usePaginatedQuerySwr_writes [of ?mount ?f ?args] s1 run1 live1 by simp
  then have e1: "js_get (cacheAtom (snd (usePaginatedQuerySwr ?f ?args ?mount))) ?key = ?old"
    by (simp add: js_get_js_set)
  have live2: "subscribePaginated (convex ?later) ?f ?args = ?new"
    by (simp add: scene_defs)
  have s2: "js_prop (subscribePaginated (convex ?later) ?f ?args) ''status'' = VStr ''CanLoadMore''"
    unfolding live2 by (simp add: js_get_def)
  have dep: "lastDep ?later = Some (VStr ''CanLoadMore'')"
    by (simp add: usePaginatedQuerySwr_ctx Let_def store_set_def s1)
  have run2: "\<not> effect_runs ?later (js_prop (subscribePaginated (convex ?later) ?f ?args) ''status'')"
    unfolding s2 by (simp add: effect_runs_def dep Object_is_def)
  have "cacheAtom (snd (usePaginatedQuerySwr ?f ?args ?later)) = cacheAtom ?later"
    using usePaginatedQuerySwr_writes [of ?later ?f ?args] s2 run2 by simp
  then have e2: "js_get (cacheAtom (snd (usePaginatedQuerySwr ?f ?args ?later))) ?key = ?old"
    using e1 by simp
  from e1 e2 show ?thesis
    by blast
qed

section \<open>What the cache holds for a paginated query\<close>

lemma paginated_key_not_query_key:
  "length as = 2 \<Longrightarrow> length args \<le> 1 \<Longrightarrow>
   createQueryKey fn (JArr as) \<noteq> createQueryKey name (JArr args)"
proof
  assume len: "length as = 2" "length args \<le> 1"
    and "createQueryKey fn (JArr as) = createQueryKey name (JArr args)"
  then have "map convexToJson as = map convexToJson args"
    by (simp add: createQueryKey_eq_iff)
  then have "length as = length args"
    by (metis length_map)
  with len show False
    by simp
qed

lemma usePaginatedQuerySwr_written:
  "cacheAtom (snd (usePaginatedQuerySwr name args c)) \<noteq> cacheAtom c \<Longrightarrow>
   cacheAtom (snd (usePaginatedQuerySwr name args c)) =
     js_set (cacheAtom c) (createQueryKey name (JArr args)) (subscribePaginated (convex c) name args) \<and>
   js_prop (subscribePaginated (convex c) name args) ''status'' \<noteq> VStr ''LoadingMore'' \<and>
   js_prop (subscribePaginated (convex c) name args) ''status'' \<noteq> VStr ''LoadingFirstPage''"
  by (simp add: usePaginatedQuerySwr_ctx store_set_def Let_def split: if_splits)

lemma js_call_deletes:
  "js_get (cacheAtom (js_call f n c)) k = js_get (cacheAtom c) k \<or>
   js_get (cacheAtom (js_call f n c)) k = VUndefined"
proof (induction f n c rule: js_call.induct)
  case (2 key originalLoadMore numItems c)
  let ?c' = "store_set (js_delete (store_get c) key) c"
  have "js_get (cacheAtom ?c') k = js_get (cacheAtom c) k \<or> js_get (cacheAtom ?c') k = VUndefined"
    by (simp add: store_set_def store_get_def js_get_js_delete)
  with "2.IH" [OF refl refl] show ?case
    by (auto simp: Let_def)
qed simp_all

text \<open>
  An invariant of the atom: under the key of a paginated query there is nothing, or a
  result object whose status is neither \<^verbatim>\<open>LoadingFirstPage\<close> nor \<^verbatim>\<open>LoadingMore\<close>. The
  keys of single queries and of batches are never keys of paginated queries, the
  paginated hook stores only results of a settled status, and \<^verbatim>\<open>loadMore\<close> only deletes.
\<close>

lemma reachable_paginated_entry:
  "reachable m \<Longrightarrow> length as = 2 \<Longrightarrow>
   js_get m (createQueryKey fn (JArr as)) = VUndefined \<or>
   (\<exists>st. js_get m (createQueryKey fn (JArr as)) = VObj st \<and>
      js_get st ''status'' \<noteq> VStr ''LoadingFirstPage'' \<and>
      js_get st ''status'' \<noteq> VStr ''LoadingMore'')"
proof (induction rule: reachable.induct)
  case reach_init
  show ?case
    by (simp add: js_get_def)
next
  case (reach_query c args name)
  from paginated_key_not_query_key [OF reach_query.prems reach_query.hyps(2)]
  have "js_get (cacheAtom (snd (useQuerySwr name args c))) (createQueryKey fn (JArr as)) =
      js_get (cacheAtom c) (createQueryKey fn (JArr as))"
    using useQuerySwr_cache [of name args c] by (auto simp: js_get_js_set)
  with reach_query.IH [OF reach_query.prems] show ?case
    by simp
next
  case (reach_queries c queries)
  have "js_get (cacheAtom (snd (useQueriesSwr queries c))) (createQueryKey fn (JArr as)) =
      js_get (cacheAtom c) (createQueryKey fn (JArr as))"
    using useQueriesSwr_cache [of queries c] paginated_key_not_queries_key [of fn as queries]
    by (auto simp: js_get_js_set)
  with reach_queries.IH [OF reach_queries.prems] show ?case
    by simp
next
  case (reach_paginated c args name ps)
  let ?m' = "cacheAtom (snd (usePaginatedQuerySwr name args c))"
  show ?case
  proof (cases "?m' = cacheAtom c")
    case True
    with reach_paginated.IH [OF reach_paginated.prems] show ?thesis
      by simp
  next
    case False
    from usePaginatedQuerySwr_written [OF False] reach_paginated.hyps(3)
    have m': "?m' = js_set (cacheAtom c) (createQueryKey name (JArr args)) (VObj ps)"
      and st: "js_get ps ''status'' \<noteq> VStr ''LoadingMore''" "js_get ps ''status'' \<noteq> VStr ''LoadingFirstPage''"
      by simp_all
    show ?thesis
    proof (cases "createQueryKey fn (JArr as) = createQueryKey name (JArr args)")
      case True
      with m' st show ?thesis
        by (simp add: js_get_js_set)
    next
      case False
      with m' reach_paginated.IH [OF reach_paginated.prems] show ?thesis
        by (simp add: js_get_js_set)
    qed
  qed
next
  case (reach_loadMore c args name original numItems)
  from js_call_deletes [of "VLoadMore (createQueryKey name (JArr args)) original" numItems c
      "createQueryKey fn (JArr as)"]
    reach_loadMore.IH [OF reach_loadMore.prems]
  show ?case
    by auto
qed

text \<open>
  C10 (paginated status masking during first-page substitution). In every evaluation of
  \<^verbatim>\<open>usePaginatedQuerySwr\<close> whose live status is \<^verbatim>\<open>LoadingFirstPage\<close> and that finds an
  entry under its key, the entry is a result object and the hook returns it whole, with
  only \<^verbatim>\<open>loadMore\<close> replaced by the closure over the live \<^verbatim>\<open>loadMore\<close>: every other
  property, the status among them, is the stored one, and the stored status is not
  \<^verbatim>\<open>LoadingFirstPage\<close>.
\<close>

theorem first_page_substitution:
  "reachable (cacheAtom c) \<Longrightarrow> length args = 2 \<Longrightarrow>
   js_prop (subscribePaginated (convex c) name args) ''status'' = VStr ''LoadingFirstPage'' \<Longrightarrow>
   js_get (cacheAtom c) (createQueryKey name (JArr args)) \<noteq> VUndefined \<Longrightarrow>
   \<exists>st. js_get (cacheAtom c) (createQueryKey name (JArr args)) = VObj st \<and>
     fst (usePaginatedQuerySwr name args c) =
       VObj (js_set st ''loadMore''
         (VLoadMore (createQueryKey name (JArr args))
           (js_prop (subscribePaginated (convex c) name args) ''loadMore''))) \<and>
     (\<forall>k. k \<noteq> ''loadMore'' \<longrightarrow> js_prop (fst (usePaginatedQuerySwr name args c)) k = js_get st k) \<and>
     js_prop (fst (usePaginatedQuerySwr name args c)) ''status'' = js_get st ''status'' \<and>
     js_get st ''status'' \<noteq> VStr ''LoadingFirstPage''"
proof -
  let ?key = "createQueryKey name (JArr args)"
  let ?live = "subscribePaginated (convex c) name args"
  assume reach: "reachable (cacheAtom c)" and len: "length args = 2"
    and first: "js_prop ?live ''status'' = VStr ''LoadingFirstPage''"
    and entry: "js_get (cacheAtom c) ?key \<noteq> VUndefined"
  from reachable_paginated_entry [OF reach len, of name] entry
  obtain st where st: "js_get (cacheAtom c) ?key = VObj st"
    and settled: "js_get st ''status'' \<noteq> VStr ''LoadingFirstPage''"
    by blast
  have ret: "fst (usePaginatedQuerySwr name args c) =
      VObj (js_set st ''loadMore'' (VLoadMore ?key (js_prop ?live ''loadMore'')))"
    by (simp add: usePaginatedQuerySwr_returned Let_def first st nullish_object)
  have others: "\<forall>k. k \<noteq> ''loadMore'' \<longrightarrow> js_prop (fst (usePaginatedQuerySwr name args c)) k = js_get st k"
    unfolding ret by (simp add: js_get_js_set)
  then have status: "js_prop (fst (usePaginatedQuerySwr name args c)) ''status'' = js_get st ''status''"
    by simp
  from st ret others status settled show ?thesis
    by blast
qed

theorem first_page_substitution_witness:
  "reachable (cacheAtom ((snd (usePaginatedQuerySwr (FunctionReference ''messages:page'')
        [JObj [], JObj [(''initialNumItems'', JNum 2)]]
        (first_evaluation (delivering
          (VObj [(''results'', VArr [VNum 1, VNum 2]), (''status'', VStr ''CanLoadMore''),
                 (''isLoading'', VBool False), (''loadMore'', VNative 0)])) [])))
      \<lparr>convex := delivering
          (VObj [(''results'', VArr []), (''status'', VStr ''LoadingFirstPage''),
                 (''isLoading'', VBool True), (''loadMore'', VNative 1)])\<rparr>)) \<and>
   fst (usePaginatedQuerySwr (FunctionReference ''messages:page'')
        [JObj [], JObj [(''initialNumItems'', JNum 2)]]
        ((snd (usePaginatedQuerySwr (FunctionReference ''messages:page'')
            [JObj [], JObj [(''initialNumItems'', JNum 2)]]
            (first_evaluation (delivering
              (VObj [(''results'', VArr [VNum 1, VNum 2]), (''status'', VStr ''CanLoadMore''),
                     (''isLoading'', VBool False), (''loadMore'', VNative 0)])) [])))
         \<lparr>convex := delivering
            (VObj [(''results'', VArr []), (''status'', VStr ''LoadingFirstPage''),
                   (''isLoading'', VBool True), (''loadMore'', VNative 1)])\<rparr>)) =
     VObj [(''results'', VArr [VNum 1, VNum 2]), (''status'', VStr ''CanLoadMore''),
           (''isLoading'', VBool False),
           (''loadMore'', VLoadMore (createQueryKey (FunctionReference ''messages:page'')
              (JArr [JObj [], JObj [(''initialNumItems'', JNum 2)]])) (VNative 1))]"
proof -
  let ?f = "FunctionReference ''messages:page''"
  let ?args = "[JObj [], JObj [(''initialNumItems'', JNum 2)]]"
  let ?ps = "[(''results'', VArr [VNum 1, VNum 2]), (''status'', VStr ''CanLoadMore''),
              (''isLoading'', VBool False), (''loadMore'', VNative 0)]"
  let ?loading = "VObj [(''results'', VArr []), (''status'', VStr ''LoadingFirstPage''),
                   (''isLoading'', VBool True), (''loadMore'', VNative 1)]"
  let ?key = "createQueryKey ?f (JArr ?args)"
  let ?mount = "first_evaluation (delivering (VObj ?ps)) []"
  let ?settled = "snd (usePaginatedQuerySwr ?f ?args ?mount)"
  let ?again = "?settled\<lparr>convex := delivering ?loading\<rparr>"
  have r0: "reachable (cacheAtom ?mount)"
    by (simp add: scene_defs reach_init)
  have len: "length ?args = 2"
    by simp
  have live0: "subscribePaginated (convex ?mount) ?f ?args = VObj ?ps"
    by (simp add: scene_defs)
  have "reachable (cacheAtom ?settled)"
    using r0 len live0 by (rule reach_paginated)
  then have reach: "reachable (cacheAtom ?again)"
    by simp
  have cache: "cacheAtom ?again = js_set [] ?key (VObj ?ps)"
    by (simp add: usePaginatedQuerySwr_ctx scene_defs effect_runs_def store_set_def Let_def js_get_def)
  have entry: "js_get (cacheAtom ?again) ?key = VObj ?ps"
    unfolding cache by (simp add: js_get_js_set)
  then have present: "js_get (cacheAtom ?again) ?key \<noteq> VUndefined"
    by simp
  have live: "subscribePaginated (convex ?again) ?f ?args = ?loading"
    by (simp add: scene_defs)
  have first: "js_prop (subscribePaginated (convex ?again) ?f ?args) ''status'' = VStr ''LoadingFirstPage''"
    unfolding live by (simp add: js_get_def)
  from first_page_substitution [OF reach len first present]
  obtain st where st: "js_get (cacheAtom ?again) ?key = VObj st"
    and ret: "fst (usePaginatedQuerySwr ?f ?args ?again) =
      VObj (js_set st ''loadMore'' (VLoadMore ?key (js_prop (subscribePaginated (convex ?again) ?f ?args) ''loadMore'')))"
    by blast
  from st entry have "st = ?ps"
    by simp
  with ret have "fst (usePaginatedQuerySwr ?f ?args ?again) =
      VObj (js_set ?ps ''loadMore'' (VLoadMore ?key (js_prop ?loading ''loadMore'')))"
    unfolding live by simp
  also have "\<dots> = VObj [(''results'', VArr [VNum 1, VNum 2]), (''status'', VStr ''CanLoadMore''),
           (''isLoading'', VBool False), (''loadMore'', VLoadMore ?key (VNative 1))]"
    by (simp add: js_set_def js_get_def)
  finally show ?thesis
    using reach by blast
qed

section \<open>The frame of a cache write\<close>

text \<open>
  C9 (cache frame). An evaluation of any of the three hooks leaves the atom as it was or
  sets it to a copy of the cache with the live result assigned to the hook's key; the
  paginated \<^verbatim>\<open>loadMore\<close> sets it to a copy with the key deleted. In each case the entry
  under every other key \<open>k\<close> is what it was, and after \<^verbatim>\<open>loadMore\<close> the key has no
  entry.
\<close>

theorem cache_frame:
  "(cacheAtom (snd (useQuerySwr name args c)) = cacheAtom c \<or>
    cacheAtom (snd (useQuerySwr name args c)) =
      js_set (cacheAtom c) (createQueryKey name (JArr args)) (subscribe (convex c) name args)) \<and>
   (cacheAtom (snd (useQueriesSwr queries c)) = cacheAtom c \<or>
    cacheAtom (snd (useQueriesSwr queries c)) =
      js_set (cacheAtom c) (queriesKey queries) (subscribeMany (convex c) queries)) \<and>
   (cacheAtom (snd (usePaginatedQuerySwr name args c)) = cacheAtom c \<or>
    cacheAtom (snd (usePaginatedQuerySwr name args c)) =
      js_set (cacheAtom c) (createQueryKey name (JArr args)) (subscribePaginated (convex c) name args)) \<and>
   cacheAtom (js_call (VLoadMore key (VNative f)) numItems c) = js_delete (cacheAtom c) key \<and>
   (k \<noteq> createQueryKey name (JArr args) \<longrightarrow>
      map_of (cacheAtom (snd (useQuerySwr name args c))) k = map_of (cacheAtom c) k \<and>
      map_of (cacheAtom (snd (usePaginatedQuerySwr name args c))) k = map_of (cacheAtom c) k) \<and>
   (k \<noteq> queriesKey queries \<longrightarrow>
      map_of (cacheAtom (snd (useQueriesSwr queries c))) k = map_of (cacheAtom c) k) \<and>
   (k \<noteq> key \<longrightarrow>
      map_of (cacheAtom (js_call (VLoadMore key (VNative f)) numItems c)) k = map_of (cacheAtom c) k) \<and>
   map_of (cacheAtom (js_call (VLoadMore key (VNative f)) numItems c)) key = None"
proof -
  note q = useQuerySwr_cache [of name args c]
  note b = useQueriesSwr_cache [of queries c]
  note p = usePaginatedQuerySwr_cache [of name args c]
  have l: "cacheAtom (js_call (VLoadMore key (VNative f)) numItems c) = js_delete (cacheAtom c) key"
    unfolding js_call_loadMore by simp
  have fq: "k \<noteq> createQueryKey name (JArr args) \<longrightarrow>
      map_of (cacheAtom (snd (useQuerySwr name args c))) k = map_of (cacheAtom c) k \<and>
      map_of (cacheAtom (snd (usePaginatedQuerySwr name args c))) k = map_of (cacheAtom c) k"
    using frame_step [OF q] frame_step [OF p] by blast
  have fb: "k \<noteq> queriesKey queries \<longrightarrow>
      map_of (cacheAtom (snd (useQueriesSwr queries c))) k = map_of (cacheAtom c) k"
    using frame_step [OF b] by blast
  have fl: "k \<noteq> key \<longrightarrow>
      map_of (cacheAtom (js_call (VLoadMore key (VNative f)) numItems c)) k = map_of (cacheAtom c) k"
    unfolding l by (simp add: map_of_js_delete)
  have gone: "map_of (cacheAtom (js_call (VLoadMore key (VNative f)) numItems c)) key = None"
    unfolding l by (simp add: map_of_js_delete)
  from q b p l fq fb fl gone show ?thesis
    by blast
qed

theorem cache_frame_witness:
  "''other'' \<noteq> createQueryKey (FunctionReference ''messages:list'') (JArr []) \<and>
   ''other'' \<noteq> queriesKey [(''a'', FunctionReference ''messages:list'', JObj [])] \<and>
   map_of (cacheAtom (snd (useQuerySwr (FunctionReference ''messages:list'') []
      (first_evaluation (delivering (VNum 5)) [(''other'', VNum 7)])))) ''other'' = Some (VNum 7) \<and>
   map_of (cacheAtom (snd (usePaginatedQuerySwr (FunctionReference ''messages:list'') []
      (first_evaluation (delivering (VNum 5)) [(''other'', VNum 7)])))) ''other'' = Some (VNum 7) \<and>
   map_of (cacheAtom (snd (useQueriesSwr [(''a'', FunctionReference ''messages:list'', JObj [])]
      (first_evaluation (delivering (VNum 5)) [(''other'', VNum 7)])))) ''other'' = Some (VNum 7) \<and>
   map_of (cacheAtom (js_call
      (VLoadMore (createQueryKey (FunctionReference ''messages:list'') (JArr [])) (VNative 0)) (VNum 10)
      (first_evaluation (delivering (VNum 5)) [(''other'', VNum 7)]))) ''other'' = Some (VNum 7)"
proof -
  let ?f = "FunctionReference ''messages:list''"
  let ?qs = "[(''a'', ?f, JObj [])]"
  let ?c = "first_evaluation (delivering (VNum 5)) [(''other'', VNum 7)]"
  have a: "''other'' \<noteq> createQueryKey ?f (JArr [])"
    by (simp add: key_eval)
  have b: "''other'' \<noteq> queriesKey ?qs"
    by (simp add: key_eval)
  have c: "map_of (cacheAtom ?c) ''other'' = Some (VNum 7)"
    by (simp add: scene_defs)
  note fr = cache_frame [where k = "''other''" and name = ?f and args = "[]" and c = ?c
      and queries = ?qs and key = "createQueryKey ?f (JArr [])" and f = 0 and numItems = "VNum 10"]
  have 1: "map_of (cacheAtom (snd (useQuerySwr ?f [] ?c))) ''other'' = map_of (cacheAtom ?c) ''other''"
    using fr a by blast
  have 2: "map_of (cacheAtom (snd (usePaginatedQuerySwr ?f [] ?c))) ''other'' =
      map_of (cacheAtom ?c) ''other''"
    using fr a by blast
  have 3: "map_of (cacheAtom (snd (useQueriesSwr ?qs ?c))) ''other'' = map_of (cacheAtom ?c) ''other''"
    using fr b by blast
  have 4: "map_of (cacheAtom (js_call (VLoadMore (createQueryKey ?f (JArr [])) (VNative 0)) (VNum 10) ?c))
      ''other'' = map_of (cacheAtom ?c) ''other''"
    using fr a by blast
  from a b show ?thesis
    unfolding 1 2 3 4 c by blast
qed

section \<open>The feature flag\<close>

text \<open>
  C7 (disabled-flag pass-through). With the flag false each export is the hook of
  \<^verbatim>\<open>convex/react\<close> itself, which returns what the provider delivers and returns the
  context unchanged: no read of the atom, no write, no effect.
\<close>

theorem flag_off_pass_through:
  "useQuerySwr_flag False = useQuery \<and>
   useQueriesSwr_flag False = useQueries \<and>
   usePaginatedQuerySwr_flag False = usePaginatedQuery \<and>
   useQuery name args c = (subscribe (convex c) name args, c) \<and>
   useQueries queries c = (subscribeMany (convex c) queries, c) \<and>
   usePaginatedQuery name args c = (subscribePaginated (convex c) name args, c)"
  by (simp add: useQuerySwr_flag_def useQueriesSwr_flag_def usePaginatedQuerySwr_flag_def
      useQuery_def useQueries_def usePaginatedQuery_def)

theorem flag_off_witness:
  "useQuerySwr_flag False (FunctionReference ''messages:list'') []
     (first_evaluation (delivering VUndefined)
        [(createQueryKey (FunctionReference ''messages:list'') (JArr []), VNum 1)]) =
   (VUndefined,
    first_evaluation (delivering VUndefined)
      [(createQueryKey (FunctionReference ''messages:list'') (JArr []), VNum 1)])"
proof -
  let ?f = "FunctionReference ''messages:list''"
  let ?c = "first_evaluation (delivering VUndefined) [(createQueryKey ?f (JArr []), VNum 1)]"
  have "useQuerySwr_flag False ?f [] ?c = useQuery ?f [] ?c"
    using flag_off_pass_through by simp
  moreover have "useQuery ?f [] ?c = (subscribe (convex ?c) ?f [], ?c)"
    using flag_off_pass_through [of ?f "[]" ?c] by blast
  moreover have "subscribe (convex ?c) ?f [] = VUndefined"
    by (simp add: scene_defs)
  ultimately show ?thesis
    by simp
qed

end
